theory Spec2Isabelle
  imports Complex_Main "HOL-Library.AList" "HOL-Library.List_Lexorder"
    "HOL-Library.Product_Lexorder" "HOL-Library.Multiset" "HOL-Library.Code_Target_Nat"
begin

section \<open>Python values\<close>

text \<open>
  A Python \<open>str\<close> is a sequence of Unicode code points; the corpus is bilingual
  (English and Ukrainian), so a string is modelled as the list of its code points.
  \<open>u\<close> embeds an ASCII literal.
\<close>

type_synonym ustr = "nat list"

definition u :: "string \<Rightarrow> ustr" where
  "u s = map of_char s"

text \<open>
  What \<open>json.loads\<close> returns. A dict is an association list in insertion order
  (keys are distinct in a Python dict); numbers are kept as rationals, which is enough for
  their truth value.
\<close>

datatype json =
    JNull
  | JBool bool
  | JNum rat
  | JStr ustr
  | JArr "json list"
  | JObj "(ustr \<times> json) list"

datatype error = TypeError | AttributeError | KeyError | ValueError

text \<open>Truth value of a Python object, as \<open>or\<close> and \<open>if\<close> test it.\<close>

fun truthy :: "json \<Rightarrow> bool" where
  "truthy JNull = False"
| "truthy (JBool b) = b"
| "truthy (JNum r) = (r \<noteq> 0)"
| "truthy (JStr s) = (s \<noteq> [])"
| "truthy (JArr xs) = (xs \<noteq> [])"
| "truthy (JObj d) = (d \<noteq> [])"

definition py_or :: "json \<Rightarrow> json \<Rightarrow> json" where
  "py_or a b = (if truthy a then a else b)"

text \<open>\<open>d.get(k)\<close> on a dict: \<open>None\<close> when the key is absent.\<close>

definition dict_get :: "(ustr \<times> json) list \<Rightarrow> ustr \<Rightarrow> json" where
  "dict_get d k = (case map_of d k of None \<Rightarrow> JNull | Some v \<Rightarrow> v)"

text \<open>
  \<open>{**base, **user}\<close> and every \<open>d[k] = v\<close>: a new key is appended, an existing key
  keeps its place and takes the new value (\<open>AList.update\<close>).
\<close>

definition dict_of_items :: "('k \<times> 'v) list \<Rightarrow> ('k \<times> 'v) list" where
  "dict_of_items kvs = foldl (\<lambda>d (k, v). AList.update k v d) [] kvs"

subsection \<open>The string methods used\<close>

text \<open>\<open>str.isspace\<close> of one code point; the same set is what \<open>\s\<close> matches and what
  \<open>str.strip()\<close> removes.\<close>

definition isspace :: "nat \<Rightarrow> bool" where
  "isspace c \<longleftrightarrow>
     (9 \<le> c \<and> c \<le> 13) \<or> (28 \<le> c \<and> c \<le> 32) \<or> c = 133 \<or> c = 160 \<or> c = 5760 \<or>
     (8192 \<le> c \<and> c \<le> 8202) \<or> c = 8232 \<or> c = 8233 \<or> c = 8239 \<or> c = 8287 \<or> c = 12288"

definition strip :: "ustr \<Rightarrow> ustr" where
  "strip s = rev (dropWhile isspace (rev (dropWhile isspace s)))"

text \<open>
  The lower-casing inside \<open>_norm\<close>. \<open>_norm\<close> calls \<open>s.lower()\<close> and then deletes every
  character outside its class, so of \<open>str.lower()\<close> only this much can be seen in the
  result: Basic Latin and the Cyrillic capitals U+0400 to U+042F and U+0490 go to their
  small letters, U+0130 (capital I with dot above) to \<open>i\<close> followed by U+0307, and U+212A
  (Kelvin sign) to \<open>k\<close>. These are all the code points whose lower case holds a
  character of the class. \<open>lower_norm\<close> leaves every other code point as it is, where
  \<open>str.lower()\<close> may change it (U+00C9 to U+00E9) into something that the class does not
  hold either and that is no white space: \<open>lower_norm\<close> is not \<open>str.lower()\<close>, but
  \<open>norm_text\<close> below is \<open>_norm\<close>.
\<close>

definition lower_norm_cp :: "nat \<Rightarrow> ustr" where
  "lower_norm_cp c =
     (if 65 \<le> c \<and> c \<le> 90 then [c + 32]
      else if c = 304 then [105, 775]
      else if 1024 \<le> c \<and> c \<le> 1039 then [c + 80]
      else if 1040 \<le> c \<and> c \<le> 1071 then [c + 32]
      else if c = 1168 then [1169]
      else if c = 8490 then [107]
      else [c])"

definition lower_norm :: "ustr \<Rightarrow> ustr" where
  "lower_norm s = concat (map lower_norm_cp s)"

section \<open>Normalizer\<close>

text \<open>
  The character class of \<open>_norm\<close>, \<open>[a-z\<dots>0-9\s\-\<dots>']\<close>: \<open>a-z\<close>, the Cyrillic range
  U+0430 to U+044F, the four letters U+0456, U+0457, U+0454, U+0491, the digits, white
  space, the hyphen, the modifier apostrophe U+02BC and the ASCII apostrophe.
\<close>

definition kept :: "nat \<Rightarrow> bool" where
  "kept c \<longleftrightarrow>
     (97 \<le> c \<and> c \<le> 122) \<or> (1072 \<le> c \<and> c \<le> 1103) \<or>
     c = 1110 \<or> c = 1111 \<or> c = 1108 \<or> c = 1169 \<or>
     (48 \<le> c \<and> c \<le> 57) \<or> isspace c \<or> c = 45 \<or> c = 700 \<or> c = 39"

text \<open>\<open>_norm(s)\<close> for a string \<open>s\<close>:
  \<open>re.sub(r"[^\<dots>]", "", s.lower().strip())\<close>.\<close>

definition norm_text :: "ustr \<Rightarrow> ustr" where
  "norm_text s = filter kept (strip (lower_norm s))"

text \<open>\<open>_norm(s)\<close> for any value: \<open>(s or "")\<close> replaces a false value by the empty
  string; a true value that is not a string has no \<open>lower\<close>.\<close>

definition norm_value :: "json \<Rightarrow> error + ustr" where
  "norm_value s =
     (case py_or s (JStr []) of JStr x \<Rightarrow> Inr (norm_text x) | _ \<Rightarrow> Inl AttributeError)"

section \<open>Pager\<close>

text \<open>\<open>xs[start:stop]\<close> for integers \<open>start\<close> and \<open>stop\<close>: a negative index counts
  from the end, and both are clamped to the list.\<close>

definition slice_index :: "nat \<Rightarrow> int \<Rightarrow> nat" where
  "slice_index len i = (if i < 0 then nat (max (i + int len) 0) else min (nat i) len)"

definition py_slice :: "'a list \<Rightarrow> int \<Rightarrow> int \<Rightarrow> 'a list" where
  "py_slice xs start stop =
     (let lo = slice_index (length xs) start; hi = slice_index (length xs) stop
      in take (hi - lo) (drop lo xs))"

text \<open>
  An inline button: \<open>Show key nm\<close> has text \<open>nm\<close> and callback data \<open>show:key\<close>;
  \<open>Prev p\<close> and \<open>Next p\<close> are the two navigation buttons with callback data \<open>page:p\<close>.
  A keyboard is the list of its rows.
\<close>

datatype button = Show ustr ustr | Prev int | Next int

definition alphabet_pages :: "(ustr \<times> ustr) list \<Rightarrow> int \<Rightarrow> int \<Rightarrow> button list list" where
  "alphabet_pages pairs page per_page =
     (let start = page * per_page;
          chunk = py_slice pairs start (start + per_page);
          kb = map (\<lambda>(key, nm). [Show key nm]) chunk;
          nav = (if page > 0 then [Prev (page - 1)] else []) @
                (if start + per_page < int (length pairs) then [Next (page + 1)] else [])
      in if nav \<noteq> [] then kb @ [nav] else kb)"

text \<open>Reading a keyboard back: the items shown, and whether it offers the two
  navigation buttons.\<close>

fun shown :: "button list \<Rightarrow> (ustr \<times> ustr) list" where
  "shown [] = []"
| "shown (Show key nm # bs) = (key, nm) # shown bs"
| "shown (b # bs) = shown bs"

definition page_items :: "button list list \<Rightarrow> (ustr \<times> ustr) list" where
  "page_items kb = concat (map shown kb)"

fun is_prev :: "button \<Rightarrow> bool" where
  "is_prev (Prev p) = True"
| "is_prev b = False"

fun is_next :: "button \<Rightarrow> bool" where
  "is_next (Next p) = True"
| "is_next b = False"

definition has_prev :: "button list list \<Rightarrow> bool" where
  "has_prev kb = list_ex (list_ex is_prev) kb"

definition has_next :: "button list list \<Rightarrow> bool" where
  "has_next kb = list_ex (list_ex is_next) kb"

section \<open>Corpus loader\<close>

text \<open>
  The state of one file of the \<open>data\<close> directory, as \<open>_load_json_dict\<close> meets it:
  absent; present, but \<open>read_text\<close> raises; read, but \<open>json.loads\<close> raises; or holding
  a JSON document. The log keeps what the loader writes to it: \<open>LogException\<close> for
  \<open>log.exception\<close>, \<open>LogWarning\<close> for \<open>log.warning\<close>. \<open>data_files\<close> are the two files of
  the corpus.
\<close>

datatype file_state = Missing | Unreadable | NotJson | Json json

datatype log_entry = LogException | LogWarning

record data_files =
  foods_json :: file_state
  user_foods_json :: file_state

definition load_json_dict :: "file_state \<Rightarrow> json \<times> log_entry list" where
  "load_json_dict f =
     (case f of
        Missing \<Rightarrow> (JObj [], [])
      | Unreadable \<Rightarrow> (JObj [], [LogException])
      | NotJson \<Rightarrow> (JObj [], [LogException])
      | Json v \<Rightarrow> (v, []))"

text \<open>\<open>{**base, **user}\<close>: both operands must be mappings.\<close>

definition merge_dicts :: "json \<Rightarrow> json \<Rightarrow> error + (ustr \<times> json) list" where
  "merge_dicts base user =
     (case base of
        JObj b \<Rightarrow> (case user of JObj us \<Rightarrow> Inr (dict_of_items (b @ us)) | _ \<Rightarrow> Inl TypeError)
      | _ \<Rightarrow> Inl TypeError)"

definition load_foods_merged :: "data_files \<Rightarrow> (error + (ustr \<times> json) list) \<times> log_entry list" where
  "load_foods_merged fs =
     (let (base, log1) = load_json_dict (foods_json fs);
          (user, log2) = (if user_foods_json fs \<noteq> Missing
                          then load_json_dict (user_foods_json fs) else (JObj [], []))
      in case merge_dicts base user of
           Inl e \<Rightarrow> (Inl e, log1 @ log2)
         | Inr merged \<Rightarrow>
             (Inr merged, log1 @ log2 @ (if merged = [] then [LogWarning] else [])))"

section \<open>Indexer\<close>

definition bind_result :: "error + 'a \<Rightarrow> ('a \<Rightarrow> error + 'b) \<Rightarrow> error + 'b" where
  "bind_result r f = (case r of Inl e \<Rightarrow> Inl e | Inr x \<Rightarrow> f x)"

text \<open>The record that \<open>rebuild_indexes\<close> stores under a canonical key: the three
  fields it computes are strings, the others are whatever the corpus holds.\<close>

record item =
  name_en :: ustr
  name_uk :: ustr
  effect :: ustr
  vitamin_k :: json
  advice_en :: json
  advice_uk :: json
  image_f :: json
  synonyms_en :: json
  synonyms_uk :: json
  sources :: json
  nutrition :: json

text \<open>\<open>v.strip()\<close>: only a string has the method.\<close>

definition strip_value :: "json \<Rightarrow> error + ustr" where
  "strip_value v = (case v of JStr s \<Rightarrow> Inr (strip s) | _ \<Rightarrow> Inl AttributeError)"

text \<open>Iterating over a value, as \<open>*v\<close> and \<open>join\<close> do: a list gives its elements, a
  string its characters, a dict its keys; nothing else can be iterated.\<close>

definition py_iter :: "json \<Rightarrow> error + json list" where
  "py_iter v =
     (case v of
        JArr xs \<Rightarrow> Inr xs
      | JStr s \<Rightarrow> Inr (map (\<lambda>c. JStr [c]) s)
      | JObj d \<Rightarrow> Inr (map (\<lambda>kv. JStr (fst kv)) d)
      | _ \<Rightarrow> Inl TypeError)"

definition nazva :: ustr where
  "nazva = [1085, 1072, 1079, 1074, 1072]"

text \<open>
  The first part of the loop body: the three computed fields and the item. \<open>it.get\<close>
  needs a dict. \<open>str_lower\<close> stands for \<open>str.lower()\<close>, the lower-casing of the whole of
  Unicode by the interpreter: the indexer takes it as a parameter, here for the effect and
  below for the canonical key, and what is proved of the indexer holds for every function
  in its place.
\<close>

definition make_item :: "(ustr \<Rightarrow> ustr) \<Rightarrow> ustr \<Rightarrow> json \<Rightarrow> error + item" where
  "make_item str_lower key it =
     (case it of
        JObj d \<Rightarrow>
          bind_result
            (strip_value (py_or (dict_get d (u ''name_en'')) (py_or (dict_get d (u ''en''))
               (py_or (dict_get d (u ''name'')) (JStr key)))))
            (\<lambda>nm_en. bind_result
               (strip_value (py_or (dict_get d (u ''name_uk'')) (py_or (dict_get d (u ''uk''))
                  (py_or (dict_get d nazva) (JStr nm_en)))))
               (\<lambda>nm_uk. bind_result
                  (strip_value (py_or (dict_get d (u ''effect'')) (JStr (u ''neutral''))))
                  (\<lambda>eff0.
                     let eff = str_lower eff0;
                         eff = (if eff \<notin> {u ''increase'', u ''decrease'', u ''neutral''}
                                then u ''neutral'' else eff)
                     in Inr \<lparr>name_en = nm_en, name_uk = nm_uk, effect = eff,
                          vitamin_k = py_or (dict_get d (u ''vitamin_k'')) (JStr []),
                          advice_en = py_or (dict_get d (u ''advice_en'')) (JStr []),
                          advice_uk = py_or (dict_get d (u ''advice_uk''))
                                        (py_or (dict_get d (u ''advice'')) (JStr [])),
                          image_f = py_or (dict_get d (u ''image'')) (JStr []),
                          synonyms_en = py_or (dict_get d (u ''synonyms_en'')) (JArr []),
                          synonyms_uk = py_or (dict_get d (u ''synonyms_uk'')) (JArr []),
                          sources = py_or (dict_get d (u ''sources'')) (JArr []),
                          nutrition = py_or (dict_get d (u ''nutrition'')) JNull\<rparr>)))
      | _ \<Rightarrow> Inl AttributeError)"

text \<open>The list \<open>[name_en, name_uk, *item["synonyms_en"], *item["synonyms_uk"]]\<close>.\<close>

definition variants :: "item \<Rightarrow> error + json list" where
  "variants item =
     bind_result (py_iter (synonyms_en item)) (\<lambda>se.
       bind_result (py_iter (synonyms_uk item)) (\<lambda>su.
         Inr ([JStr (name_en item), JStr (name_uk item)] @ se @ su)))"

text \<open>The inner loop: \<open>ns = _norm(s)\<close>, and \<open>alias[ns] = canon\<close> when \<open>ns\<close> is not
  empty.\<close>

fun register_aliases ::
  "ustr \<Rightarrow> json list \<Rightarrow> (ustr \<times> ustr) list \<Rightarrow> error + (ustr \<times> ustr) list"
where
  "register_aliases canon [] alias = Inr alias"
| "register_aliases canon (s # ss) alias =
     (case norm_value s of
        Inl e \<Rightarrow> Inl e
      | Inr ns \<Rightarrow>
          register_aliases canon ss (if ns \<noteq> [] then AList.update ns canon alias else alias))"

text \<open>One turn of the outer loop.\<close>

definition index_record ::
  "(ustr \<Rightarrow> ustr) \<Rightarrow> ustr \<times> json \<Rightarrow> (ustr \<times> item) list \<times> (ustr \<times> ustr) list \<Rightarrow>
   error + ((ustr \<times> item) list \<times> (ustr \<times> ustr) list)"
where
  "index_record str_lower r st =
     (case r of (key, it) \<Rightarrow> case st of (foods, alias) \<Rightarrow>
        bind_result (make_item str_lower key it) (\<lambda>item.
          let canon = str_lower (name_en item);
              foods' = AList.update canon item foods
          in bind_result (variants item) (\<lambda>vs.
               bind_result (register_aliases canon vs alias) (\<lambda>alias'.
                 Inr (foods', alias')))))"

fun index_loop ::
  "(ustr \<Rightarrow> ustr) \<Rightarrow> (ustr \<times> json) list \<Rightarrow> (ustr \<times> item) list \<times> (ustr \<times> ustr) list \<Rightarrow>
   error + ((ustr \<times> item) list \<times> (ustr \<times> ustr) list)"
where
  "index_loop str_lower [] st = Inr st"
| "index_loop str_lower (r # raw) st =
     (case index_record str_lower r st of
        Inl e \<Rightarrow> Inl e
      | Inr st' \<Rightarrow> index_loop str_lower raw st')"

definition rebuild_indexes ::
  "(ustr \<Rightarrow> ustr) \<Rightarrow> data_files \<Rightarrow>
   (error + ((ustr \<times> item) list \<times> (ustr \<times> ustr) list)) \<times> log_entry list"
where
  "rebuild_indexes str_lower fs =
     (case load_foods_merged fs of
        (Inl e, logged) \<Rightarrow> (Inl e, logged)
      | (Inr raw, logged) \<Rightarrow> (index_loop str_lower raw ([], []), logged))"

section \<open>Similarity of two strings\<close>

text \<open>
  \<open>difflib.SequenceMatcher(None, a, b)\<close> of the standard library, as the bot uses it: no
  junk predicate, and the automatic junk heuristic on. An element of \<open>b\<close> is popular when
  \<open>b\<close> has at least 200 elements and the element occurs more than \<open>len(b) // 100 + 1\<close>
  times; \<open>b2j\<close> maps an element to the increasing list of its positions in \<open>b\<close>, and
  has no entry for a popular one.
\<close>

definition popular :: "ustr \<Rightarrow> nat \<Rightarrow> bool" where
  "popular b x \<longleftrightarrow> 200 \<le> length b \<and> length b div 100 + 1 < count_list b x"

definition b2j :: "ustr \<Rightarrow> nat \<Rightarrow> nat list" where
  "b2j b x = (if popular b x then [] else filter (\<lambda>j. b ! j = x) [0..<length b])"

text \<open>A match \<open>(i, j, k)\<close> says \<open>a[i:i+k] == b[j:j+k]\<close>.\<close>

type_synonym match = "nat \<times> nat \<times> nat"

text \<open>
  The inner loop of \<open>find_longest_match\<close> for one \<open>i\<close>: over the positions \<open>j\<close> of
  \<open>a[i]\<close> in \<open>b\<close>, with its \<open>continue\<close> and its \<open>break\<close>. \<open>j2len\<close> is the
  dictionary of the previous row, \<open>newj2len\<close> the one being filled;
  \<open>j2len.get(j-1, 0)\<close> finds nothing for \<open>j = 0\<close>.
\<close>

fun scan_row ::
  "(nat \<rightharpoonup> nat) \<Rightarrow> nat \<Rightarrow> nat \<Rightarrow> nat \<Rightarrow> nat list \<Rightarrow> match \<times> (nat \<rightharpoonup> nat) \<Rightarrow> match \<times> (nat \<rightharpoonup> nat)"
where
  "scan_row j2len i blo bhi [] st = st"
| "scan_row j2len i blo bhi (j # js) (best, newj2len) =
     (if j < blo then scan_row j2len i blo bhi js (best, newj2len)
      else if bhi \<le> j then (best, newj2len)
      else
        let k = (case (if j = 0 then None else j2len (j - 1)) of None \<Rightarrow> 0 | Some l \<Rightarrow> l) + 1;
            best' = (if snd (snd best) < k then (i + 1 - k, j + 1 - k, k) else best)
        in scan_row j2len i blo bhi js (best', newj2len(j \<mapsto> k)))"

text \<open>The outer loop, \<open>for i in range(alo, ahi)\<close>.\<close>

fun scan_rows ::
  "ustr \<Rightarrow> ustr \<Rightarrow> nat \<Rightarrow> nat \<Rightarrow> nat list \<Rightarrow> match \<times> (nat \<rightharpoonup> nat) \<Rightarrow> match \<times> (nat \<rightharpoonup> nat)"
where
  "scan_rows a b blo bhi [] st = st"
| "scan_rows a b blo bhi (i # is) (best, j2len) =
     scan_rows a b blo bhi is (scan_row j2len i blo bhi (b2j b (a ! i)) (best, Map.empty))"

text \<open>
  The two loops that extend the best block at each end. With no junk predicate the set
  \<open>bjunk\<close> is empty, so \<open>not isbjunk(\<dots>)\<close> holds and the two further loops, which
  extend by junk only, never run.
\<close>

function extend_left :: "ustr \<Rightarrow> ustr \<Rightarrow> nat \<Rightarrow> nat \<Rightarrow> match \<Rightarrow> match" where
  "extend_left a b alo blo (besti, bestj, bestsize) =
     (if alo < besti \<and> blo < bestj \<and> a ! (besti - 1) = b ! (bestj - 1)
      then extend_left a b alo blo (besti - 1, bestj - 1, bestsize + 1)
      else (besti, bestj, bestsize))"
  by pat_completeness auto
termination
  by (relation "measure (\<lambda>(a, b, alo, blo, besti, bestj, bestsize). besti)") auto

function extend_right :: "ustr \<Rightarrow> ustr \<Rightarrow> nat \<Rightarrow> nat \<Rightarrow> match \<Rightarrow> match" where
  "extend_right a b ahi bhi (besti, bestj, bestsize) =
     (if besti + bestsize < ahi \<and> bestj + bestsize < bhi \<and>
         a ! (besti + bestsize) = b ! (bestj + bestsize)
      then extend_right a b ahi bhi (besti, bestj, bestsize + 1)
      else (besti, bestj, bestsize))"
  by pat_completeness auto
termination
  by (relation "measure (\<lambda>(a, b, ahi, bhi, besti, bestj, bestsize). ahi - (besti + bestsize))")
    auto

declare extend_left.simps [simp del] extend_right.simps [simp del]

definition find_longest_match :: "ustr \<Rightarrow> ustr \<Rightarrow> nat \<Rightarrow> nat \<Rightarrow> nat \<Rightarrow> nat \<Rightarrow> match" where
  "find_longest_match a b alo ahi blo bhi =
     extend_right a b ahi bhi
       (extend_left a b alo blo
          (fst (scan_rows a b blo bhi [alo..<ahi] ((alo, blo, 0), Map.empty))))"

text \<open>
  What \<open>find_longest_match\<close> promises: the block lies inside both windows and the two
  strings agree on it. The termination of the loop of \<open>get_matching_blocks\<close> rests on it.
\<close>

definition valid_match :: "ustr \<Rightarrow> ustr \<Rightarrow> nat \<Rightarrow> nat \<Rightarrow> nat \<Rightarrow> nat \<Rightarrow> match \<Rightarrow> bool" where
  "valid_match a b alo ahi blo bhi m =
     (case m of (i, j, k) \<Rightarrow>
        alo \<le> i \<and> i + k \<le> ahi \<and> blo \<le> j \<and> j + k \<le> bhi \<and> (\<forall>t<k. a ! (i + t) = b ! (j + t)))"

definition row_ok :: "ustr \<Rightarrow> ustr \<Rightarrow> nat \<Rightarrow> nat \<Rightarrow> nat \<Rightarrow> nat \<Rightarrow> (nat \<rightharpoonup> nat) \<Rightarrow> bool" where
  "row_ok a b alo blo bhi i m =
     (\<forall>j k. m j = Some k \<longrightarrow>
        1 \<le> k \<and> k \<le> i - alo \<and> k \<le> j + 1 - blo \<and> j < bhi \<and>
        (\<forall>t<k. a ! (i - 1 - t) = b ! (j - t)))"

lemma scan_row_ok:
  assumes "row_ok a b alo blo bhi i j2len" "alo \<le> i" "i < ahi"
    and "\<forall>j\<in>set js. b ! j = a ! i"
    and "valid_match a b alo ahi blo bhi best" "row_ok a b alo blo bhi (Suc i) new"
    and "scan_row j2len i blo bhi js (best, new) = (best', new')"
  shows "valid_match a b alo ahi blo bhi best' \<and> row_ok a b alo blo bhi (Suc i) new'"
  using assms(4-)
proof (induction js arbitrary: best new)
  case Nil
  then show ?case by simp
next
  case (Cons j js)
  show ?case
  proof (cases "j < blo")
    case True
    with Cons show ?thesis by simp
  next
    case lo: False
    show ?thesis
    proof (cases "bhi \<le> j")
      case True
      with lo Cons.prems show ?thesis by simp
    next
      case hi: False
      define l where "l = (case (if j = 0 then None else j2len (j - 1)) of None \<Rightarrow> 0 | Some l \<Rightarrow> l)"
      define k where "k = l + 1"
      define best2 where "best2 = (if snd (snd best) < k then (i + 1 - k, j + 1 - k, k) else best)"
      have eqij: "b ! j = a ! i" using Cons.prems(1) by simp
      have l_props: "l \<le> i - alo \<and> l \<le> j - blo \<and> (\<forall>t<l. a ! (i - 1 - t) = b ! (j - 1 - t))"
      proof (cases "j = 0 \<or> j2len (j - 1) = None")
        case True
        then have "l = 0" by (auto simp: l_def)
        then show ?thesis by simp
      next
        case False
        then obtain l' where l': "j2len (j - 1) = Some l'" and j0: "j \<noteq> 0" by auto
        then have "l = l'" by (simp add: l_def)
        moreover from assms(1) l' have "1 \<le> l' \<and> l' \<le> i - alo \<and> l' \<le> (j - 1) + 1 - blo \<and>
            (\<forall>t<l'. a ! (i - 1 - t) = b ! (j - 1 - t))"
          unfolding row_ok_def by blast
        ultimately show ?thesis using j0 by auto
      qed
      have kb: "k \<le> Suc i - alo" "k \<le> j + 1 - blo" "1 \<le> k"
        using l_props lo assms(2) by (auto simp: k_def)
      have keq: "\<forall>t<k. a ! (i - t) = b ! (j - t)"
      proof (intro allI impI)
        fix t assume "t < k"
        show "a ! (i - t) = b ! (j - t)"
        proof (cases t)
          case 0
          then show ?thesis using eqij by simp
        next
          case (Suc s)
          with \<open>t < k\<close> have "s < l" by (simp add: k_def)
          with l_props have "a ! (i - 1 - s) = b ! (j - 1 - s)" by blast
          then show ?thesis using Suc by simp
        qed
      qed
      have new_ok: "row_ok a b alo blo bhi (Suc i) (new(j \<mapsto> k))"
        using Cons.prems(3) kb keq hi unfolding row_ok_def by auto
      have "valid_match a b alo ahi blo bhi (i + 1 - k, j + 1 - k, k)"
      proof -
        have "\<forall>t<k. a ! (i + 1 - k + t) = b ! (j + 1 - k + t)"
        proof (intro allI impI)
          fix t assume t: "t < k"
          then have "k - 1 - t < k" by simp
          with keq have h: "a ! (i - (k - 1 - t)) = b ! (j - (k - 1 - t))" by blast
          have e: "i - (k - 1 - t) = i + 1 - k + t" "j - (k - 1 - t) = j + 1 - k + t"
            using t kb assms(2) lo by auto
          from h show "a ! (i + 1 - k + t) = b ! (j + 1 - k + t)" by (simp only: e)
        qed
        then show ?thesis
          using kb assms(2,3) lo hi by (auto simp: valid_match_def)
      qed
      then have best2_ok: "valid_match a b alo ahi blo bhi best2"
        using Cons.prems(2) by (simp add: best2_def)
      have step: "scan_row j2len i blo bhi (j # js) (best, new) =
          scan_row j2len i blo bhi js (best2, new(j \<mapsto> k))"
        using lo hi by (simp add: best2_def k_def l_def Let_def)
      have rest: "\<forall>j\<in>set js. b ! j = a ! i" using Cons.prems(1) by simp
      have "scan_row j2len i blo bhi js (best2, new(j \<mapsto> k)) = (best', new')"
        using step Cons.prems(4) by (simp only:)
      then show ?thesis by (rule Cons.IH[OF rest best2_ok new_ok])
    qed
  qed
qed


lemma row_ok_empty: "row_ok a b alo blo bhi i Map.empty"
  by (simp add: row_ok_def)

lemma b2j_positions: "\<forall>j\<in>set (b2j b x). b ! j = x"
  by (simp add: b2j_def)

lemma scan_rows_ok:
  assumes "alo \<le> i" "valid_match a b alo ahi blo bhi best" "row_ok a b alo blo bhi i j2len"
  shows "valid_match a b alo ahi blo bhi (fst (scan_rows a b blo bhi [i..<ahi] (best, j2len)))"
  using assms
proof (induction "ahi - i" arbitrary: i best j2len)
  case 0
  then show ?case by simp
next
  case (Suc n)
  then have lt: "i < ahi" by simp
  obtain best' new' where st:
    "scan_row j2len i blo bhi (b2j b (a ! i)) (best, Map.empty) = (best', new')"
    by (cases "scan_row j2len i blo bhi (b2j b (a ! i)) (best, Map.empty)") auto
  have ok: "valid_match a b alo ahi blo bhi best' \<and> row_ok a b alo blo bhi (Suc i) new'"
    by (rule scan_row_ok[OF Suc.prems(3) Suc.prems(1) lt b2j_positions Suc.prems(2) row_ok_empty st])
  have "n = ahi - Suc i" using Suc.hyps(2) by simp
  from Suc.hyps(1)[OF this] ok Suc.prems(1)
  have "valid_match a b alo ahi blo bhi (fst (scan_rows a b blo bhi [Suc i..<ahi] (best', new')))"
    by simp
  then show ?case using lt st by (simp add: upt_conv_Cons)
qed

lemma extend_left_ok:
  "valid_match a b alo ahi blo bhi m \<Longrightarrow> valid_match a b alo ahi blo bhi (extend_left a b alo blo m)"
proof (induction a b alo blo m rule: extend_left.induct)
  case (1 a b alo blo besti bestj bestsize)
  show ?case
  proof (cases "alo < besti \<and> blo < bestj \<and> a ! (besti - 1) = b ! (bestj - 1)")
    case True
    then have c: "alo < besti" "blo < bestj" "a ! (besti - 1) = b ! (bestj - 1)" by auto
    from 1(2) have v: "besti + bestsize \<le> ahi" "bestj + bestsize \<le> bhi"
      "\<forall>t<bestsize. a ! (besti + t) = b ! (bestj + t)"
      by (auto simp: valid_match_def)
    have "\<forall>t<bestsize + 1. a ! (besti - 1 + t) = b ! (bestj - 1 + t)"
    proof (intro allI impI)
      fix t assume t: "t < bestsize + 1"
      show "a ! (besti - 1 + t) = b ! (bestj - 1 + t)"
      proof (cases t)
        case 0
        then show ?thesis using c by simp
      next
        case (Suc s)
        with t v(3) have "a ! (besti + s) = b ! (bestj + s)" by simp
        moreover have "besti - 1 + t = besti + s" "bestj - 1 + t = bestj + s"
          using Suc c by arith+
        ultimately show ?thesis by (simp only:)
      qed
    qed
    moreover have "alo \<le> besti - 1" "besti - 1 + (bestsize + 1) \<le> ahi"
      "blo \<le> bestj - 1" "bestj - 1 + (bestsize + 1) \<le> bhi"
      using c v(1,2) by arith+
    ultimately have "valid_match a b alo ahi blo bhi (besti - 1, bestj - 1, bestsize + 1)"
      unfolding valid_match_def by blast
    with 1(1) True show ?thesis by (subst extend_left.simps) simp
  next
    case False
    with 1(2) show ?thesis by (subst extend_left.simps) auto
  qed
qed

lemma extend_right_ok:
  "valid_match a b alo ahi blo bhi m \<Longrightarrow> valid_match a b alo ahi blo bhi (extend_right a b ahi bhi m)"
proof (induction a b ahi bhi m rule: extend_right.induct)
  case (1 a b ahi bhi besti bestj bestsize)
  show ?case
  proof (cases "besti + bestsize < ahi \<and> bestj + bestsize < bhi \<and>
         a ! (besti + bestsize) = b ! (bestj + bestsize)")
    case True
    have "valid_match a b alo ahi blo bhi (besti, bestj, bestsize + 1)"
      using 1(2) True by (auto simp: valid_match_def less_Suc_eq)
    with 1(1) True show ?thesis by (subst extend_right.simps) simp
  next
    case False
    with 1(2) show ?thesis by (subst extend_right.simps) auto
  qed
qed

lemma find_longest_match_ok:
  assumes "alo \<le> ahi" "blo \<le> bhi"
  shows "valid_match a b alo ahi blo bhi (find_longest_match a b alo ahi blo bhi)"
proof -
  have "valid_match a b alo ahi blo bhi (alo, blo, 0)"
    using assms by (simp add: valid_match_def)
  then show ?thesis
    unfolding find_longest_match_def
    by (intro extend_right_ok extend_left_ok scan_rows_ok) (simp_all add: row_ok_empty)
qed

lemma scan_row_empty_window:
  "bhi < blo \<Longrightarrow> fst (scan_row j2len i blo bhi js (best, new)) = best"
  by (induction js arbitrary: new) auto

lemma scan_rows_empty_window:
  "bhi < blo \<Longrightarrow> fst (scan_rows a b blo bhi is (best, j2len)) = best"
proof (induction "is" arbitrary: j2len)
  case Nil
  then show ?case by simp
next
  case (Cons i "is")
  obtain best' new' where st:
    "scan_row j2len i blo bhi (b2j b (a ! i)) (best, Map.empty) = (best', new')"
    by (cases "scan_row j2len i blo bhi (b2j b (a ! i)) (best, Map.empty)") auto
  with scan_row_empty_window[OF Cons.prems, of j2len i "b2j b (a ! i)" best Map.empty]
  have "best' = best" by simp
  with Cons st show ?case by simp
qed

lemma find_longest_match_empty:
  assumes "\<not> (alo \<le> ahi \<and> blo \<le> bhi)"
  shows "find_longest_match a b alo ahi blo bhi = (alo, blo, 0)"
proof (cases "alo \<le> ahi")
  case False
  then show ?thesis
    by (simp add: find_longest_match_def extend_left.simps extend_right.simps)
next
  case True
  with assms have "bhi < blo" by simp
  then show ?thesis
    by (simp add: find_longest_match_def scan_rows_empty_window extend_left.simps
        extend_right.simps)
qed

lemma find_longest_match_bounds:
  assumes "find_longest_match a b alo ahi blo bhi = (i, j, k)" "k \<noteq> 0"
  shows "alo \<le> i \<and> i + k \<le> ahi \<and> blo \<le> j \<and> j + k \<le> bhi"
proof (cases "alo \<le> ahi \<and> blo \<le> bhi")
  case True
  then have "valid_match a b alo ahi blo bhi (i, j, k)"
    using find_longest_match_ok[of alo ahi blo bhi a b] assms(1) by simp
  then show ?thesis by (simp add: valid_match_def)
next
  case False
  from find_longest_match_empty[OF this, of a b] assms show ?thesis by simp
qed

lemma find_longest_match_bounds':
  assumes "(i, j, k) = find_longest_match a b alo ahi blo bhi" "k \<noteq> 0"
  shows "alo \<le> i \<and> i + k \<le> ahi \<and> blo \<le> j \<and> j + k \<le> bhi"
  using find_longest_match_bounds[OF assms(1)[symmetric] assms(2)] .

text \<open>
  The loop of \<open>get_matching_blocks\<close>. \<open>queue\<close> is a stack: \<open>queue.pop()\<close>
  takes the window pushed last, so the head of the list is the top. The measure
  \<open>queue_size\<close> shows that the loop ends.
\<close>

definition queue_size :: "(nat \<times> nat \<times> nat \<times> nat) list \<Rightarrow> nat" where
  "queue_size queue = sum_list (map (\<lambda>(alo, ahi, blo, bhi). 2 * (ahi - alo) + 1) queue)"

function match_loop ::
  "ustr \<Rightarrow> ustr \<Rightarrow> (nat \<times> nat \<times> nat \<times> nat) list \<Rightarrow> match list \<Rightarrow> match list"
where
  "match_loop a b [] matching_blocks = matching_blocks"
| "match_loop a b ((alo, ahi, blo, bhi) # queue) matching_blocks =
     (case find_longest_match a b alo ahi blo bhi of
        (i, j, k) \<Rightarrow>
          if k \<noteq> 0 then
            match_loop a b
              ((if i + k < ahi \<and> j + k < bhi then [(i + k, ahi, j + k, bhi)] else []) @
               (if alo < i \<and> blo < j then [(alo, i, blo, j)] else []) @ queue)
              (matching_blocks @ [(i, j, k)])
          else match_loop a b queue matching_blocks)"
  by pat_completeness auto
termination
  apply (relation "measure (\<lambda>(a, b, queue, blocks). queue_size queue)")
    apply simp
   apply (auto simp: queue_size_def dest!: find_longest_match_bounds' split: if_splits)
  done

text \<open>
  \<open>ratio()\<close> adds up the sizes of the matching blocks. \<open>get_matching_blocks\<close> then
  sorts the blocks, merges adjacent ones and appends a block of size 0; none of this
  changes the sum, and the model stops at the loop.
\<close>

definition get_matching_blocks :: "ustr \<Rightarrow> ustr \<Rightarrow> match list" where
  "get_matching_blocks a b = match_loop a b [(0, length a, 0, length b)] []"

definition calculate_ratio :: "nat \<Rightarrow> nat \<Rightarrow> rat" where
  "calculate_ratio matches len = (if len \<noteq> 0 then 2 * of_nat matches / of_nat len else 1)"

definition ratio :: "ustr \<Rightarrow> ustr \<Rightarrow> rat" where
  "ratio a b =
     calculate_ratio (sum_list (map (\<lambda>(i, j, k). k) (get_matching_blocks a b)))
       (length a + length b)"

text \<open>\<open>quick_ratio()\<close>: \<open>avail[elt]\<close> counts how often \<open>elt\<close> is still available
  in \<open>b\<close>, and may go below zero.\<close>

fun quick_loop :: "ustr \<Rightarrow> ustr \<Rightarrow> (nat \<rightharpoonup> int) \<Rightarrow> nat \<Rightarrow> nat" where
  "quick_loop b [] avail matches = matches"
| "quick_loop b (elt # as) avail matches =
     (let numb = (case avail elt of Some v \<Rightarrow> v | None \<Rightarrow> int (count_list b elt))
      in quick_loop b as (avail(elt \<mapsto> numb - 1)) (if numb > 0 then matches + 1 else matches))"

definition quick_ratio :: "ustr \<Rightarrow> ustr \<Rightarrow> rat" where
  "quick_ratio a b = calculate_ratio (quick_loop b a Map.empty 0) (length a + length b)"

definition real_quick_ratio :: "ustr \<Rightarrow> ustr \<Rightarrow> rat" where
  "real_quick_ratio a b = calculate_ratio (min (length a) (length b)) (length a + length b)"

text \<open>
  \<open>difflib.get_close_matches(word, possibilities, n, cutoff)\<close>. Each possibility \<open>x\<close> is
  the first sequence and \<open>word\<close> the second. \<open>heapq.nlargest(n, result)\<close> is
  \<open>sorted(result, reverse=True)[:n]\<close>; the pairs \<open>(score, x)\<close> are compared as Python
  compares tuples, the score first and then the string, code point by code point.

  The scores are Python floats, \<open>2.0 * M / T\<close>; the model keeps the exact quotient. Two
  such quotients that differ, or one that differs from a cutoff, differ by at least
  \<open>1 / (20 * T * T')\<close>, so the rounded values compare as the exact ones do for all strings
  shorter than \<open>2 ^ 24\<close> code points.
\<close>

definition get_close_matches :: "ustr \<Rightarrow> ustr list \<Rightarrow> int \<Rightarrow> rat \<Rightarrow> error + ustr list" where
  "get_close_matches word possibilities n cutoff =
     (if \<not> n > 0 then Inl ValueError
      else if \<not> (0 \<le> cutoff \<and> cutoff \<le> 1) then Inl ValueError
      else
        let result = map (\<lambda>x. (ratio x word, x))
              (filter (\<lambda>x. real_quick_ratio x word \<ge> cutoff \<and> quick_ratio x word \<ge> cutoff \<and>
                            ratio x word \<ge> cutoff) possibilities)
        in Inr (map snd (take (nat n) (rev (sort result)))))"

section \<open>Resolver\<close>

text \<open>
  The loop of \<open>search_foods\<close> over the close matches, with its \<open>break\<close>.
  \<open>ALIAS[m]\<close> raises \<open>KeyError\<close> for a missing key.
\<close>

fun collect ::
  "(ustr \<times> ustr) list \<Rightarrow> int \<Rightarrow> ustr list \<Rightarrow> ustr set \<Rightarrow> ustr list \<Rightarrow> error + ustr list"
where
  "collect ALIAS n [] seen out = Inr out"
| "collect ALIAS n (m # maybes) seen out =
     (case map_of ALIAS m of
        None \<Rightarrow> Inl KeyError
      | Some canon \<Rightarrow>
          let seen' = (if canon \<notin> seen then insert canon seen else seen);
              out' = (if canon \<notin> seen then out @ [canon] else out)
          in if int (length out') \<ge> n then Inr out' else collect ALIAS n maybes seen' out')"

text \<open>
  \<open>search_foods(q, n)\<close> over the global \<open>ALIAS\<close>. The matcher is a parameter, so that
  a statement can say where it is not called; \<open>search_foods\<close> is the function of the
  source, with \<open>difflib.get_close_matches\<close>.
\<close>

definition search_foods_with ::
  "(ustr \<Rightarrow> ustr list \<Rightarrow> int \<Rightarrow> rat \<Rightarrow> error + ustr list) \<Rightarrow>
   (ustr \<times> ustr) list \<Rightarrow> ustr \<Rightarrow> int \<Rightarrow> error + ustr list"
where
  "search_foods_with matcher ALIAS q n =
     (let qn = norm_text q in
      if qn = [] then Inr []
      else case map_of ALIAS qn of
        Some canon \<Rightarrow> Inr [canon]
      | None \<Rightarrow>
          (case matcher qn (map fst ALIAS) (max (n * 3) 60) (45 / 100) of
             Inl e \<Rightarrow> Inl e
           | Inr maybes \<Rightarrow> collect ALIAS n maybes {} []))"

definition search_foods :: "(ustr \<times> ustr) list \<Rightarrow> ustr \<Rightarrow> int \<Rightarrow> error + ustr list" where
  "search_foods = search_foods_with get_close_matches"

section \<open>The food command\<close>








section \<open>The words of the specification\<close>

text \<open>
  The allowed set of the normalizer, as the specification lists it: Latin letters,
  the Cyrillic letters used by the second language, digits, white space, the hyphen and
  the two apostrophes. Letters count in both cases. The Latin letters are \<open>A-Z\<close> and
  \<open>a-z\<close>. The second language is Ukrainian: its alphabet is U+0410 to U+044F without
  the hard sign, yery and e (U+042A, U+042B, U+042D, U+044A, U+044B, U+044D), and the four
  pairs U+0404/U+0454, U+0406/U+0456, U+0407/U+0457, U+0490/U+0491.
\<close>

definition allowed :: "nat \<Rightarrow> bool" where
  "allowed c \<longleftrightarrow>
     (65 \<le> c \<and> c \<le> 90) \<or> (97 \<le> c \<and> c \<le> 122) \<or>
     (1040 \<le> c \<and> c \<le> 1103 \<and> c \<noteq> 1066 \<and> c \<noteq> 1067 \<and> c \<noteq> 1069 \<and>
        c \<noteq> 1098 \<and> c \<noteq> 1099 \<and> c \<noteq> 1101) \<or>
     c = 1028 \<or> c = 1030 \<or> c = 1031 \<or> c = 1168 \<or>
     c = 1108 \<or> c = 1110 \<or> c = 1111 \<or> c = 1169 \<or>
     (48 \<le> c \<and> c \<le> 57) \<or> isspace c \<or> c = 45 \<or> c = 700 \<or> c = 39"

text \<open>
  The fuzzy fallback, step by step as the specification words it. The similarity of an
  alias to the normalized query is \<open>ratio alias query\<close>. \<open>ranked\<close> retains the aliases
  with similarity at least 0.45 and sorts them by descending similarity (aliases of equal
  similarity by descending string, the order of the pairs \<open>(score, alias)\<close>);
  \<open>alias_key\<close> is the canonical key of an alias; \<open>keep_first\<close> removes duplicates,
  keeping first occurrences; \<open>spec_resolve\<close> truncates to the limit.
\<close>

function keep_first :: "'a list \<Rightarrow> 'a list" where
  "keep_first [] = []"
| "keep_first (x # xs) = x # keep_first (removeAll x xs)"
  by pat_completeness auto
termination
  by (relation "measure length") (auto simp: less_Suc_eq_le)

definition alias_key :: "(ustr \<times> ustr) list \<Rightarrow> ustr \<Rightarrow> ustr" where
  "alias_key ALIAS a = (case map_of ALIAS a of Some canon \<Rightarrow> canon | None \<Rightarrow> [])"

definition ranked :: "(ustr \<times> ustr) list \<Rightarrow> ustr \<Rightarrow> ustr list" where
  "ranked ALIAS qn =
     map snd (rev (sort (map (\<lambda>a. (ratio a qn, a))
       (filter (\<lambda>a. ratio a qn \<ge> 45 / 100) (map fst ALIAS)))))"

definition spec_resolve :: "(ustr \<times> ustr) list \<Rightarrow> ustr \<Rightarrow> int \<Rightarrow> ustr list" where
  "spec_resolve ALIAS q n =
     take (nat n) (keep_first (map (alias_key ALIAS) (ranked ALIAS (norm_text q))))"

section \<open>Auxiliary notions\<close>

text \<open>
  \<open>fresh seen xs\<close> are the first occurrences in \<open>xs\<close> of what is not in \<open>seen\<close>;
  \<open>window a lo hi\<close> is \<open>a[lo:hi]\<close> inside the string; \<open>common\<close> counts the characters
  that two windows share, with multiplicity; \<open>matched\<close> is the total size of a list of
  blocks.
\<close>

fun fresh :: "'a set \<Rightarrow> 'a list \<Rightarrow> 'a list" where
  "fresh seen [] = []"
| "fresh seen (x # xs) = (if x \<in> seen then fresh seen xs else x # fresh (insert x seen) xs)"

definition window :: "'a list \<Rightarrow> nat \<Rightarrow> nat \<Rightarrow> 'a list" where
  "window a lo hi = map ((!) a) [lo..<hi]"

definition common :: "ustr \<Rightarrow> ustr \<Rightarrow> nat \<times> nat \<times> nat \<times> nat \<Rightarrow> nat" where
  "common a b w =
     (case w of (alo, ahi, blo, bhi) \<Rightarrow>
        size (mset (window a alo ahi) \<inter># mset (window b blo bhi)))"

definition matched :: "match list \<Rightarrow> nat" where
  "matched blocks = sum_list (map (\<lambda>(i, j, k). k) blocks)"

text \<open>
  The characters that \<open>_norm\<close> accepts: those of its class and the capitals that
  \<open>s.lower()\<close> brings into it. The Cyrillic range of the class is the whole of U+0430 to
  U+044F, so with the capitals it is U+0410 to U+044F; and besides \<open>A-Z\<close> two more
  characters have a lower case in \<open>a-z\<close>, U+0130 (capital I with dot above) and U+212A
  (Kelvin sign).
\<close>

definition accepted :: "nat \<Rightarrow> bool" where
  "accepted c \<longleftrightarrow>
     (65 \<le> c \<and> c \<le> 90) \<or> (97 \<le> c \<and> c \<le> 122) \<or> c = 304 \<or> c = 8490 \<or>
     (1040 \<le> c \<and> c \<le> 1103) \<or>
     c = 1028 \<or> c = 1030 \<or> c = 1031 \<or> c = 1168 \<or>
     c = 1108 \<or> c = 1110 \<or> c = 1111 \<or> c = 1169 \<or>
     (48 \<le> c \<and> c \<le> 57) \<or> isspace c \<or> c = 45 \<or> c = 700 \<or> c = 39"

text \<open>
  For one entry of the merged corpus: the values that \<open>rebuild_indexes\<close> normalizes
  and registers for it, and the canonical key it computes (both trivial where the entry
  makes \<open>rebuild_indexes\<close> fail). \<open>index_ok\<close> is the invariant of the index pair: no
  alias is empty, and every alias points to a key of the foods map.
\<close>

definition record_variants :: "(ustr \<Rightarrow> ustr) \<Rightarrow> ustr \<times> json \<Rightarrow> json list" where
  "record_variants str_lower r =
     (case make_item str_lower (fst r) (snd r) of
        Inl e \<Rightarrow> []
      | Inr item \<Rightarrow> (case variants item of Inl e \<Rightarrow> [] | Inr vs \<Rightarrow> vs))"

definition record_canon :: "(ustr \<Rightarrow> ustr) \<Rightarrow> ustr \<times> json \<Rightarrow> ustr" where
  "record_canon str_lower r =
     (case make_item str_lower (fst r) (snd r) of
        Inl e \<Rightarrow> []
      | Inr item \<Rightarrow> str_lower (name_en item))"

definition index_ok :: "(ustr \<times> item) list \<times> (ustr \<times> ustr) list \<Rightarrow> bool" where
  "index_ok st = list_all (\<lambda>(a, c). a \<noteq> [] \<and> c \<in> fst ` set (fst st)) (snd st)"

section \<open>Examples\<close>

text \<open>
  A corpus of three records, as \<open>foods.json\<close> may hold it, with no override file. The
  primary names and the effects of all the examples, which is what \<open>rebuild_indexes\<close>
  lower-cases, are Basic Latin, where \<open>lower_norm\<close> is \<open>str.lower()\<close>: in the examples
  \<open>lower_norm\<close> stands for it. \<open>example_foods\<close> and
  \<open>example_alias\<close> are the index pair of the corpus.
\<close>

definition spinach_record :: json where
  "spinach_record = JObj [(u ''name_en'', JStr (u ''Spinach'')),
     (u ''name_uk'', JStr [1064, 1087, 1080, 1085, 1072, 1090]),
     (u ''effect'', JStr (u ''increase'')),
     (u ''synonyms_uk'', JArr [JStr [1096, 1087, 1110, 1085, 1072, 1090]])]"

definition kale_record :: json where
  "kale_record = JObj [(u ''name'', JStr (u '' Kale'')),
     (u ''uk'', JStr [1050, 1077, 1081, 1083]),
     (u ''synonyms_en'', JArr [JStr (u ''Leaf Cabbage'')])]"

definition tea_record :: json where
  "tea_record = JObj [(u ''name_en'', JStr (u ''Tea'')),
     (u ''name_uk'', JStr [1063, 1072, 1081]),
     (u ''effect'', JStr (u ''Decrease '')),
     (u ''synonyms_en'', JArr [JStr (u ''Camellia sinensis infusion'')])]"

definition example_files :: data_files where
  "example_files =
     \<lparr>foods_json = Json (JObj [(u ''spinach'', spinach_record), (u ''kale'', kale_record),
        (u ''tea'', tea_record)]),
      user_foods_json = Missing\<rparr>"

definition example_foods :: "(ustr \<times> item) list" where
  "example_foods =
     [(u ''spinach'',
       \<lparr>name_en = u ''Spinach'', name_uk = [1064, 1087, 1080, 1085, 1072, 1090],
        effect = u ''increase'', vitamin_k = JStr [], advice_en = JStr [], advice_uk = JStr [],
        image_f = JStr [], synonyms_en = JArr [],
        synonyms_uk = JArr [JStr [1096, 1087, 1110, 1085, 1072, 1090]],
        sources = JArr [], nutrition = JNull\<rparr>),
      (u ''kale'',
       \<lparr>name_en = u ''Kale'', name_uk = [1050, 1077, 1081, 1083],
        effect = u ''neutral'', vitamin_k = JStr [], advice_en = JStr [], advice_uk = JStr [],
        image_f = JStr [], synonyms_en = JArr [JStr (u ''Leaf Cabbage'')],
        synonyms_uk = JArr [], sources = JArr [], nutrition = JNull\<rparr>),
      (u ''tea'',
       \<lparr>name_en = u ''Tea'', name_uk = [1063, 1072, 1081],
        effect = u ''decrease'', vitamin_k = JStr [], advice_en = JStr [], advice_uk = JStr [],
        image_f = JStr [], synonyms_en = JArr [JStr (u ''Camellia sinensis infusion'')],
        synonyms_uk = JArr [], sources = JArr [], nutrition = JNull\<rparr>)]"

definition example_alias :: "(ustr \<times> ustr) list" where
  "example_alias =
     [(u ''spinach'', u ''spinach''),
      ([1096, 1087, 1080, 1085, 1072, 1090], u ''spinach''),
      ([1096, 1087, 1110, 1085, 1072, 1090], u ''spinach''),
      (u ''kale'', u ''kale''),
      ([1082, 1077, 1081, 1083], u ''kale''),
      (u ''leaf cabbage'', u ''kale''),
      (u ''tea'', u ''tea''),
      ([1095, 1072, 1081], u ''tea''),
      (u ''camellia sinensis infusion'', u ''tea'')]"

text \<open>
  A corpus of two records in which sixty-one aliases are similar to the query \<open>ab\<close>: the
  sixty aliases of the first record, and the second record's name, the least similar of
  all. \<open>crowded_alias\<close> is its alias map, \<open>crowded_ranked\<close> the aliases in the order of
  their similarity to \<open>ab\<close>.
\<close>

definition crowded_files :: data_files where
  "crowded_files = \<lparr>foods_json = Json (JObj
     [(u ''ab0'', JObj [(u ''synonyms_en'', JArr
       [JStr (u ''ab1''), JStr (u ''ab2''), JStr (u ''ab3''), JStr (u ''ab4''), JStr (u
        ''ab5''), JStr (u ''ab6''), JStr (u ''ab7''), JStr (u ''ab8''), JStr (u
        ''ab9''), JStr (u ''ab00''), JStr (u ''ab01''), JStr (u ''ab02''), JStr (u
        ''ab03''), JStr (u ''ab04''), JStr (u ''ab05''), JStr (u ''ab06''), JStr (u
        ''ab07''), JStr (u ''ab08''), JStr (u ''ab09''), JStr (u ''ab10''), JStr (u
        ''ab11''), JStr (u ''ab12''), JStr (u ''ab13''), JStr (u ''ab14''), JStr (u
        ''ab15''), JStr (u ''ab16''), JStr (u ''ab17''), JStr (u ''ab18''), JStr (u
        ''ab19''), JStr (u ''ab20''), JStr (u ''ab21''), JStr (u ''ab22''), JStr (u
        ''ab23''), JStr (u ''ab24''), JStr (u ''ab25''), JStr (u ''ab26''), JStr (u
        ''ab27''), JStr (u ''ab28''), JStr (u ''ab29''), JStr (u ''ab30''), JStr (u
        ''ab31''), JStr (u ''ab32''), JStr (u ''ab33''), JStr (u ''ab34''), JStr (u
        ''ab35''), JStr (u ''ab36''), JStr (u ''ab37''), JStr (u ''ab38''), JStr (u
        ''ab39''), JStr (u ''ab40''), JStr (u ''ab41''), JStr (u ''ab42''), JStr (u
        ''ab43''), JStr (u ''ab44''), JStr (u ''ab45''), JStr (u ''ab46''), JStr (u
        ''ab47''), JStr (u ''ab48''), JStr (u ''ab49'')])]),
      (u ''abxyz'', JObj [])]),
     user_foods_json = Missing\<rparr>"

definition crowded_alias :: "(ustr \<times> ustr) list" where
  "crowded_alias =
      [(u ''ab0'', u ''ab0''), (u ''ab1'', u ''ab0''), (u ''ab2'', u ''ab0''), (u ''ab3'',
       u ''ab0''), (u ''ab4'', u ''ab0''), (u ''ab5'', u ''ab0''), (u ''ab6'', u ''ab0''),
       (u ''ab7'', u ''ab0''), (u ''ab8'', u ''ab0''), (u ''ab9'', u ''ab0''), (u ''ab00'',
       u ''ab0''), (u ''ab01'', u ''ab0''), (u ''ab02'', u ''ab0''), (u ''ab03'', u
       ''ab0''), (u ''ab04'', u ''ab0''), (u ''ab05'', u ''ab0''), (u ''ab06'', u ''ab0''),
       (u ''ab07'', u ''ab0''), (u ''ab08'', u ''ab0''), (u ''ab09'', u ''ab0''), (u
       ''ab10'', u ''ab0''), (u ''ab11'', u ''ab0''), (u ''ab12'', u ''ab0''), (u ''ab13'',
       u ''ab0''), (u ''ab14'', u ''ab0''), (u ''ab15'', u ''ab0''), (u ''ab16'', u
       ''ab0''), (u ''ab17'', u ''ab0''), (u ''ab18'', u ''ab0''), (u ''ab19'', u ''ab0''),
       (u ''ab20'', u ''ab0''), (u ''ab21'', u ''ab0''), (u ''ab22'', u ''ab0''), (u
       ''ab23'', u ''ab0''), (u ''ab24'', u ''ab0''), (u ''ab25'', u ''ab0''), (u ''ab26'',
       u ''ab0''), (u ''ab27'', u ''ab0''), (u ''ab28'', u ''ab0''), (u ''ab29'', u
       ''ab0''), (u ''ab30'', u ''ab0''), (u ''ab31'', u ''ab0''), (u ''ab32'', u ''ab0''),
       (u ''ab33'', u ''ab0''), (u ''ab34'', u ''ab0''), (u ''ab35'', u ''ab0''), (u
       ''ab36'', u ''ab0''), (u ''ab37'', u ''ab0''), (u ''ab38'', u ''ab0''), (u ''ab39'',
       u ''ab0''), (u ''ab40'', u ''ab0''), (u ''ab41'', u ''ab0''), (u ''ab42'', u
       ''ab0''), (u ''ab43'', u ''ab0''), (u ''ab44'', u ''ab0''), (u ''ab45'', u ''ab0''),
       (u ''ab46'', u ''ab0''), (u ''ab47'', u ''ab0''), (u ''ab48'', u ''ab0''), (u
       ''ab49'', u ''ab0''), (u ''abxyz'', u ''abxyz'')]"

definition crowded_ranked :: "ustr list" where
  "crowded_ranked =
      [u ''ab9'', u ''ab8'', u ''ab7'', u ''ab6'', u ''ab5'', u ''ab4'', u ''ab3'', u
       ''ab2'', u ''ab1'', u ''ab0'', u ''ab49'', u ''ab48'', u ''ab47'', u ''ab46'', u
       ''ab45'', u ''ab44'', u ''ab43'', u ''ab42'', u ''ab41'', u ''ab40'', u ''ab39'', u
       ''ab38'', u ''ab37'', u ''ab36'', u ''ab35'', u ''ab34'', u ''ab33'', u ''ab32'', u
       ''ab31'', u ''ab30'', u ''ab29'', u ''ab28'', u ''ab27'', u ''ab26'', u ''ab25'', u
       ''ab24'', u ''ab23'', u ''ab22'', u ''ab21'', u ''ab20'', u ''ab19'', u ''ab18'', u
       ''ab17'', u ''ab16'', u ''ab15'', u ''ab14'', u ''ab13'', u ''ab12'', u ''ab11'', u
       ''ab10'', u ''ab09'', u ''ab08'', u ''ab07'', u ''ab06'', u ''ab05'', u ''ab04'', u
       ''ab03'', u ''ab02'', u ''ab01'', u ''ab00'', u ''abxyz'']"

text \<open>
  A base corpus and an override: both have a record for \<open>spinach\<close>, and only the record
  of the base has the field \<open>image\<close>.
\<close>

definition base_corpus :: "(ustr \<times> json) list" where
  "base_corpus =
     [(u ''spinach'', JObj [(u ''name_en'', JStr (u ''Spinach'')), (u ''image'', JStr (u ''s.png''))]),
      (u ''kale'', kale_record)]"

definition override_corpus :: "(ustr \<times> json) list" where
  "override_corpus = [(u ''spinach'', spinach_record), (u ''tea'', tea_record)]"

definition merge_files :: data_files where
  "merge_files = \<lparr>foods_json = Json (JObj base_corpus),
     user_foods_json = Json (JObj override_corpus)\<rparr>"

section \<open>Properties of the normalizer\<close>

lemma set_strip: "set (strip s) \<subseteq> set s"
proof -
  have "set (strip s) \<subseteq> set (dropWhile isspace s)"
    unfolding strip_def using set_dropWhileD by fastforce
  also have "\<dots> \<subseteq> set s" using set_dropWhileD by fastforce
  finally show ?thesis .
qed

lemma kept_accepted: "kept c \<Longrightarrow> accepted c"
  unfolding kept_def accepted_def by (elim disjE) simp_all

lemma lower_norm_cp_cases:
  assumes "\<not> accepted c"
  shows "lower_norm_cp c = [c] \<or> (1024 \<le> c \<and> c \<le> 1039 \<and> c \<noteq> 1028 \<and> c \<noteq> 1030 \<and>
    c \<noteq> 1031 \<and> lower_norm_cp c = [c + 80])"
proof -
  from assms have "\<not> (65 \<le> c \<and> c \<le> 90)" "c \<noteq> 304" "\<not> (1040 \<le> c \<and> c \<le> 1071)"
    "c \<noteq> 1168" "c \<noteq> 8490" "c \<noteq> 1028" "c \<noteq> 1030" "c \<noteq> 1031"
    unfolding accepted_def by linarith+
  then show ?thesis unfolding lower_norm_cp_def by simp
qed

lemma not_kept_shifted:
  assumes "1024 \<le> c" "c \<le> 1039" "c \<noteq> 1028" "c \<noteq> 1030" "c \<noteq> 1031"
  shows "\<not> kept (c + 80)"
proof -
  have "\<not> isspace (c + 80)" using assms unfolding isspace_def by linarith
  then show ?thesis using assms unfolding kept_def by linarith
qed

lemma lower_norm_cp_not_kept: "\<not> accepted c \<Longrightarrow> \<forall>d\<in>set (lower_norm_cp c). \<not> kept d"
  using lower_norm_cp_cases[of c] kept_accepted[of c] not_kept_shifted[of c] by auto

lemma lower_not_kept:
  assumes "\<forall>c\<in>set s. \<not> accepted c"
  shows "\<forall>d\<in>set (lower_norm s). \<not> kept d"
  using assms lower_norm_cp_not_kept by (auto simp: lower_norm_def)

lemma norm_text_disallowed:
  assumes "\<forall>c\<in>set s. \<not> accepted c"
  shows "norm_text s = []"
proof -
  have "\<forall>d\<in>set (strip (lower_norm s)). \<not> kept d"
    using lower_not_kept[OF assms] set_strip by blast
  then show ?thesis by (simp add: norm_text_def filter_empty_conv)
qed

lemma search_foods_with_empty:
  "norm_text q = [] \<Longrightarrow> search_foods_with matcher ALIAS q n = Inr []"
  by (simp add: search_foods_with_def)

lemma accepted_iff:
  "accepted c \<longleftrightarrow>
     allowed c \<or> c = 1066 \<or> c = 1067 \<or> c = 1069 \<or> c = 1098 \<or> c = 1099 \<or> c = 1101 \<or>
     c = 304 \<or> c = 8490"
proof
  assume "accepted c"
  then show "allowed c \<or> c = 1066 \<or> c = 1067 \<or> c = 1069 \<or> c = 1098 \<or> c = 1099 \<or>
      c = 1101 \<or> c = 304 \<or> c = 8490"
    unfolding accepted_def allowed_def by (elim disjE) auto
next
  assume "allowed c \<or> c = 1066 \<or> c = 1067 \<or> c = 1069 \<or> c = 1098 \<or> c = 1099 \<or>
      c = 1101 \<or> c = 304 \<or> c = 8490"
  then show "accepted c"
    unfolding accepted_def allowed_def by (elim disjE) simp_all
qed

lemma strip_single: "\<not> isspace x \<Longrightarrow> strip [x] = [x]"
  by (simp add: strip_def)

lemma strip_pair: "\<not> isspace x \<Longrightarrow> \<not> isspace y \<Longrightarrow> strip [x, y] = [x, y]"
  by (simp add: strip_def)

lemma accepted_kept:
  assumes "accepted c" "\<not> isspace c"
  shows "norm_text [c] \<noteq> []"
proof -
  have "(65 \<le> c \<and> c \<le> 90) \<or> c = 304 \<or> (c = 1028 \<or> c = 1030 \<or> c = 1031) \<or>
      (1040 \<le> c \<and> c \<le> 1071) \<or> c = 1168 \<or> c = 8490 \<or> kept c"
    using assms(1) unfolding accepted_def kept_def by (elim disjE) auto
  then consider "65 \<le> c \<and> c \<le> 90" | "c = 304" | "c = 1028 \<or> c = 1030 \<or> c = 1031"
    | "1040 \<le> c \<and> c \<le> 1071" | "c = 1168" | "c = 8490" | "kept c"
    by blast
  then show ?thesis
  proof cases
    case 1
    then have "\<not> isspace (c + 32)" unfolding isspace_def by linarith
    with 1 show ?thesis
      by (simp add: norm_text_def lower_norm_def lower_norm_cp_def strip_single kept_def)
  next
    case 2
    then show ?thesis
      by (simp add: norm_text_def lower_norm_def lower_norm_cp_def strip_pair kept_def
          isspace_def)
  next
    case 3
    then have "\<not> isspace (c + 80)" unfolding isspace_def by linarith
    with 3 show ?thesis
      by (auto simp: norm_text_def lower_norm_def lower_norm_cp_def strip_single kept_def)
  next
    case 4
    then have "\<not> isspace (c + 32)" unfolding isspace_def by linarith
    with 4 show ?thesis
      by (simp add: norm_text_def lower_norm_def lower_norm_cp_def strip_single kept_def)
  next
    case 5
    then show ?thesis
      by (simp add: norm_text_def lower_norm_def lower_norm_cp_def strip_single kept_def
          isspace_def)
  next
    case 6
    then show ?thesis
      by (simp add: norm_text_def lower_norm_def lower_norm_cp_def strip_single kept_def
          isspace_def)
  next
    case 7
    then have "lower_norm_cp c = [c]"
      unfolding kept_def lower_norm_cp_def using assms(2) by auto
    with 7 assms(2) show ?thesis
      by (simp add: norm_text_def lower_norm_def strip_single)
  qed
qed

text \<open>
  C4, as the code has it. The set that \<open>_norm\<close> accepts is the allowed set of the
  specification and eight characters more: the hard sign, yery and e in both cases, which
  the range \<open>U+0430-U+044F\<close> of the class holds, and U+0130 and U+212A, which
  \<open>s.lower()\<close> brings into \<open>a-z\<close>. A string made only of characters outside the
  accepted set normalizes to the empty string, and the accepted set is the least such:
  an accepted character that is no white space does not normalize to the empty string.
  A query whose normalization is empty resolves to the empty list, for every limit, every
  alias map and whatever the matcher would do: the resolver returns before it looks at
  either.
\<close>

theorem normalize_disallowed_resolves_empty:
  "(accepted c \<longleftrightarrow>
      allowed c \<or> c = 1066 \<or> c = 1067 \<or> c = 1069 \<or> c = 1098 \<or> c = 1099 \<or> c = 1101 \<or>
      c = 304 \<or> c = 8490) \<and>
   ((\<forall>c\<in>set s. \<not> accepted c) \<longrightarrow> norm_text s = []) \<and>
   (accepted c \<and> \<not> isspace c \<longrightarrow> norm_text [c] \<noteq> []) \<and>
   (norm_text q = [] \<longrightarrow>
      search_foods ALIAS q n = Inr [] \<and> search_foods_with matcher ALIAS q n = Inr [])"
  using accepted_iff[of c] accepted_kept[of c]
  by (simp add: norm_text_disallowed search_foods_with_empty search_foods_def)

text \<open>The punctuation \<open>!\<close>, the euro sign and \<open>?\<close> are outside the accepted set;
  the letter \<open>k\<close> is in it.\<close>

theorem normalize_disallowed_resolves_empty_witness:
  "\<not> accepted 33 \<and> \<not> accepted 8364 \<and> \<not> accepted 63 \<and> norm_text [33, 8364, 63] = [] \<and>
   search_foods [(u ''spinach'', u ''spinach'')] [33, 8364, 63] 5 = Inr [] \<and>
   accepted 107 \<and> \<not> isspace 107 \<and> norm_text [107] \<noteq> []"
proof -
  have a: "\<not> accepted 33" "\<not> accepted 8364" "\<not> accepted 63"
    by (simp_all add: accepted_def isspace_def)
  have k: "accepted 107" "\<not> isspace 107"
    by (simp_all add: accepted_def isspace_def)
  from a have "\<forall>c\<in>set [33, 8364, 63]. \<not> accepted c" by simp
  with normalize_disallowed_resolves_empty[of 33 "[33, 8364, 63]" "[33, 8364, 63]"
      "[(u ''spinach'', u ''spinach'')]" 5 get_close_matches]
    normalize_disallowed_resolves_empty[of 107 "[]" "[]" "[]" 0 get_close_matches] a k
  show ?thesis by blast
qed

text \<open>
  As the specification words it, the property fails on the letters of the range that
  Ukrainian does not use: none of them is in the allowed set, and \<open>_norm\<close> keeps them,
  small as they are and capital after lower-casing.
\<close>

theorem normalize_disallowed_counterexample:
  "\<not> allowed 1099 \<and> \<not> allowed 1098 \<and> \<not> allowed 1101 \<and>
   \<not> allowed 1067 \<and> \<not> allowed 1066 \<and> \<not> allowed 1069 \<and>
   norm_text [1099, 1098, 1101] = [1099, 1098, 1101] \<and>
   norm_text [1067, 1066, 1069] = [1099, 1098, 1101]"
  by (simp add: allowed_def isspace_def norm_text_def strip_def lower_norm_def
      lower_norm_cp_def kept_def)

section \<open>Properties of the pager\<close>

lemma shown_rows: "concat (map (shown \<circ> (\<lambda>(key, nm). [Show key nm])) xs) = xs"
  by (induction xs) auto

lemma no_nav_in_rows:
  "\<not> list_ex (list_ex is_prev) (map (\<lambda>(key, nm). [Show key nm]) xs)"
  "\<not> list_ex (list_ex is_next) (map (\<lambda>(key, nm). [Show key nm]) xs)"
  by (induction xs) auto

lemma page_items_alphabet_pages:
  "page_items (alphabet_pages pairs page per_page) =
     py_slice pairs (page * per_page) (page * per_page + per_page)"
  by (simp add: page_items_def alphabet_pages_def Let_def shown_rows)

lemma has_prev_alphabet_pages:
  "has_prev (alphabet_pages pairs page per_page) \<longleftrightarrow> page > 0"
  by (simp add: has_prev_def alphabet_pages_def Let_def no_nav_in_rows)

lemma has_next_alphabet_pages:
  "has_next (alphabet_pages pairs page per_page) \<longleftrightarrow>
     (page + 1) * per_page < int (length pairs)"
  by (simp add: has_next_def alphabet_pages_def Let_def no_nav_in_rows algebra_simps)

lemma py_slice_beyond:
  "int (length xs) \<le> start \<Longrightarrow> py_slice xs start stop = []"
  by (simp add: py_slice_def slice_index_def Let_def)

lemma py_slice_window:
  assumes "0 \<le> start" "0 \<le> n"
  shows "py_slice xs start (start + n) = take (nat n) (drop (nat start) xs)"
proof (cases "nat start \<le> length xs")
  case True
  with assms show ?thesis
    by (simp add: py_slice_def slice_index_def Let_def min_def nat_add_distrib)
next
  case False
  with assms show ?thesis
    by (simp add: py_slice_def slice_index_def Let_def min_def)
qed

text \<open>
  C7. \<open>_alphabet_pages(pairs, page, per_page)\<close> shows the slice
  \<open>pairs[page*per_page : page*per_page+per_page]\<close>; it offers the button back exactly
  when \<open>page > 0\<close> and the button forward exactly when
  \<open>(page+1)*per_page < len(pairs)\<close>. For a page index and a page size that are not
  negative the slice is the window of \<open>per_page\<close> items after the first
  \<open>page*per_page\<close>. When \<open>page*per_page \<ge> len(pairs)\<close>, the page size being a number
  of items and so not negative, the slice is empty and there is no button forward. The
  function has no failing branch: it returns a keyboard for every integer page index.
\<close>

theorem alphabet_pages_page:
  "page_items (alphabet_pages pairs page per_page) =
     py_slice pairs (page * per_page) (page * per_page + per_page) \<and>
   (has_prev (alphabet_pages pairs page per_page) \<longleftrightarrow> page > 0) \<and>
   (has_next (alphabet_pages pairs page per_page) \<longleftrightarrow>
      (page + 1) * per_page < int (length pairs)) \<and>
   (0 \<le> page \<and> 0 \<le> per_page \<longrightarrow>
      page_items (alphabet_pages pairs page per_page) =
        take (nat per_page) (drop (nat (page * per_page)) pairs)) \<and>
   (0 \<le> per_page \<and> int (length pairs) \<le> page * per_page \<longrightarrow>
      page_items (alphabet_pages pairs page per_page) = [] \<and>
      \<not> has_next (alphabet_pages pairs page per_page))"
proof (intro conjI impI)
  show "page_items (alphabet_pages pairs page per_page) =
     py_slice pairs (page * per_page) (page * per_page + per_page)"
    by (rule page_items_alphabet_pages)
  show "has_prev (alphabet_pages pairs page per_page) \<longleftrightarrow> page > 0"
    by (rule has_prev_alphabet_pages)
  show "has_next (alphabet_pages pairs page per_page) \<longleftrightarrow>
      (page + 1) * per_page < int (length pairs)"
    by (rule has_next_alphabet_pages)
next
  assume "0 \<le> page \<and> 0 \<le> per_page"
  then show "page_items (alphabet_pages pairs page per_page) =
        take (nat per_page) (drop (nat (page * per_page)) pairs)"
    by (simp add: page_items_alphabet_pages py_slice_window)
next
  assume h: "0 \<le> per_page \<and> int (length pairs) \<le> page * per_page"
  then show "page_items (alphabet_pages pairs page per_page) = []"
    by (simp add: page_items_alphabet_pages py_slice_beyond)
  from h have "\<not> (page + 1) * per_page < int (length pairs)"
    by (simp add: algebra_simps)
  then show "\<not> has_next (alphabet_pages pairs page per_page)"
    by (simp add: has_next_alphabet_pages)
qed

text \<open>The example of the specification: three items, two to a page; then the page
  after the last one.\<close>

theorem alphabet_pages_page_witness:
  "page_items (alphabet_pages [([1], u ''Apple''), ([2], u ''Banana''), ([3], u ''Cherry'')] 1 2) =
     [([3], u ''Cherry'')] \<and>
   has_prev (alphabet_pages [([1], u ''Apple''), ([2], u ''Banana''), ([3], u ''Cherry'')] 1 2) \<and>
   \<not> has_next (alphabet_pages [([1], u ''Apple''), ([2], u ''Banana''), ([3], u ''Cherry'')] 1 2) \<and>
   page_items (alphabet_pages [([1], u ''Apple''), ([2], u ''Banana''), ([3], u ''Cherry'')] 0 2) =
     take 2 (drop 0 [([1], u ''Apple''), ([2], u ''Banana''), ([3], u ''Cherry'')]) \<and>
   page_items (alphabet_pages [([1], u ''Apple''), ([2], u ''Banana''), ([3], u ''Cherry'')] 2 2) = [] \<and>
   \<not> has_next (alphabet_pages [([1], u ''Apple''), ([2], u ''Banana''), ([3], u ''Cherry'')] 2 2)"
proof -
  let ?items = "[([1::nat], u ''Apple''), ([2], u ''Banana''), ([3], u ''Cherry'')]"
  have s1: "py_slice ?items (1 * 2) (1 * 2 + 2) = [([3], u ''Cherry'')]"
    by (simp add: py_slice_def slice_index_def)
  have n1: "\<not> (1 + 1) * 2 < int (length ?items)" by simp
  have h0: "(0::int) \<le> 0 \<and> (0::int) \<le> 2" by simp
  have h2: "(0::int) \<le> 2 \<and> int (length ?items) \<le> 2 * 2" by simp
  from alphabet_pages_page[of ?items 1 2] s1 n1
  have p1: "page_items (alphabet_pages ?items 1 2) = [([3], u ''Cherry'')]"
    "has_prev (alphabet_pages ?items 1 2)" "\<not> has_next (alphabet_pages ?items 1 2)"
    by simp_all
  from alphabet_pages_page[of ?items 0 2] h0
  have "page_items (alphabet_pages ?items 0 2) = take (nat 2) (drop (nat (0 * 2)) ?items)"
    by blast
  then have p0: "page_items (alphabet_pages ?items 0 2) = take 2 (drop 0 ?items)"
    by simp
  from alphabet_pages_page[of ?items 2 2] h2
  have p2: "page_items (alphabet_pages ?items 2 2) = []" "\<not> has_next (alphabet_pages ?items 2 2)"
    by blast+
  from p1 p0 p2 show ?thesis by blast
qed

section \<open>Properties of the indexer\<close>

lemma bind_result_Inr:
  "bind_result r f = Inr y \<longleftrightarrow> (\<exists>x. r = Inr x \<and> f x = Inr y)"
  by (cases r) (auto simp: bind_result_def)

lemma set_update_subset: "set (AList.update k v al) \<subseteq> insert (k, v) (set al)"
  by (induction al) auto

lemma register_aliases_ok:
  assumes "register_aliases canon vs als = Inr als'"
    and "\<forall>(a, c)\<in>set als. a \<noteq> [] \<and> c \<in> K" "canon \<in> K"
  shows "\<forall>(a, c)\<in>set als'. a \<noteq> [] \<and> c \<in> K"
  using assms
proof (induction vs arbitrary: als)
  case Nil
  then show ?case by simp
next
  case (Cons v vs)
  from Cons.prems(1) obtain ns where ns: "norm_value v = Inr ns"
    and rest: "register_aliases canon vs (if ns \<noteq> [] then AList.update ns canon als else als) = Inr als'"
    by (auto split: sum.splits)
  have "\<forall>(a, c)\<in>set (if ns \<noteq> [] then AList.update ns canon als else als). a \<noteq> [] \<and> c \<in> K"
    using Cons.prems(2,3) set_update_subset[of ns canon als] by auto
  from Cons.IH[OF rest this Cons.prems(3)] show ?case .
qed

lemma register_aliases_map_of:
  assumes "register_aliases canon vs als = Inr als'"
  shows "map_of als' k =
     (if k \<noteq> [] \<and> Inr k \<in> norm_value ` set vs then Some canon else map_of als k)"
  using assms
proof (induction vs arbitrary: als)
  case Nil
  then show ?case by simp
next
  case (Cons v vs)
  from Cons.prems(1) obtain ns where ns: "norm_value v = Inr ns"
    and rest: "register_aliases canon vs (if ns \<noteq> [] then AList.update ns canon als else als) = Inr als'"
    by (auto split: sum.splits)
  from Cons.IH[OF rest] ns show ?case
    by (auto simp: update_conv' image_iff)
qed

lemma index_record_Inr:
  assumes "index_record str_lower r (foods, als) = Inr (foods', als')"
  shows "\<exists>item vs. make_item str_lower (fst r) (snd r) = Inr item \<and> variants item = Inr vs \<and>
     foods' = AList.update (str_lower (name_en item)) item foods \<and>
     register_aliases (str_lower (name_en item)) vs als = Inr als'"
  using assms
  by (cases r) (auto simp: index_record_def bind_result_Inr Let_def)

lemma index_record_facts:
  assumes "index_record str_lower r (foods, als) = Inr (foods', als')"
  shows "record_variants str_lower r \<noteq> [] \<and>
     fst ` set foods' = insert (record_canon str_lower r) (fst ` set foods) \<and>
     register_aliases (record_canon str_lower r) (record_variants str_lower r) als = Inr als'"
proof -
  from index_record_Inr[OF assms] obtain item vs where
    i: "make_item str_lower (fst r) (snd r) = Inr item" and v: "variants item = Inr vs"
    and f: "foods' = AList.update (str_lower (name_en item)) item foods"
    and a: "register_aliases (str_lower (name_en item)) vs als = Inr als'"
    by blast
  from v have "vs \<noteq> []" by (auto simp: variants_def bind_result_Inr)
  with i v f a show ?thesis
    by (simp add: record_variants_def record_canon_def dom_update)
qed

lemma index_record_ok:
  assumes "index_record str_lower r st = Inr st'" "index_ok st"
  shows "index_ok st'"
proof -
  obtain foods als foods' als' where st: "st = (foods, als)" "st' = (foods', als')"
    by (cases st, cases st') auto
  from index_record_facts[OF assms(1)[unfolded st]]
  have f: "fst ` set foods' = insert (record_canon str_lower r) (fst ` set foods)"
    and a: "register_aliases (record_canon str_lower r) (record_variants str_lower r) als = Inr als'"
    by auto
  have "\<forall>(a, c)\<in>set als. a \<noteq> [] \<and> c \<in> fst ` set foods'"
    using assms(2) f by (auto simp: index_ok_def st list_all_iff)
  from register_aliases_ok[OF a this] f show ?thesis
    by (auto simp: index_ok_def st list_all_iff)
qed

lemma index_loop_ok:
  "index_loop str_lower raw st = Inr st' \<Longrightarrow> index_ok st \<Longrightarrow> index_ok st'"
proof (induction raw arbitrary: st)
  case Nil
  then show ?case by simp
next
  case (Cons r raw)
  from Cons.prems(1) obtain st1 where s: "index_record str_lower r st = Inr st1"
    and l: "index_loop str_lower raw st1 = Inr st'"
    by (auto split: sum.splits)
  from Cons.IH[OF l index_record_ok[OF s Cons.prems(2)]] show ?case .
qed

lemma index_loop_append:
  "index_loop str_lower (pre @ post) st = Inr fin \<longleftrightarrow>
     (\<exists>st1. index_loop str_lower pre st = Inr st1 \<and> index_loop str_lower post st1 = Inr fin)"
  by (induction pre arbitrary: st) (auto split: sum.splits)

lemma index_record_map_of:
  assumes "index_record str_lower r (foods, als) = Inr (foods', als')"
  shows "map_of als' k =
     (if k \<noteq> [] \<and> Inr k \<in> norm_value ` set (record_variants str_lower r) then Some (record_canon str_lower r)
      else map_of als k)"
proof -
  from index_record_facts[OF assms]
  have a: "register_aliases (record_canon str_lower r) (record_variants str_lower r) als = Inr als'" by simp
  show ?thesis by (rule register_aliases_map_of[OF a])
qed

lemma index_loop_untouched:
  assumes "index_loop str_lower raw st = Inr st'"
    and "\<forall>r\<in>set raw. \<forall>v\<in>set (record_variants str_lower r). norm_value v \<noteq> Inr k"
  shows "map_of (snd st') k = map_of (snd st) k"
  using assms
proof (induction raw arbitrary: st)
  case Nil
  then show ?case by simp
next
  case (Cons r raw)
  from Cons.prems(1) obtain st1 where s: "index_record str_lower r st = Inr st1"
    and l: "index_loop str_lower raw st1 = Inr st'"
    by (auto split: sum.splits)
  have "map_of (snd st1) k = map_of (snd st) k"
    using index_record_map_of[of str_lower r "fst st" "snd st" "fst st1" "snd st1" k] s Cons.prems(2)
    by (auto simp: image_iff)
  moreover have "map_of (snd st') k = map_of (snd st1) k"
    using Cons.IH[OF l] Cons.prems(2) by simp
  ultimately show ?case by simp
qed

lemma rebuild_indexes_Inr:
  assumes "rebuild_indexes str_lower fs = (Inr (FOODS, ALIAS), logged)"
  shows "\<exists>raw. fst (load_foods_merged fs) = Inr raw \<and> index_loop str_lower raw ([], []) = Inr (FOODS, ALIAS)"
  using assms
  by (cases "load_foods_merged fs") (auto simp: rebuild_indexes_def split: sum.splits)

lemma rebuild_indexes_ok:
  assumes "rebuild_indexes str_lower fs = (Inr (FOODS, ALIAS), logged)"
  shows "index_ok (FOODS, ALIAS)"
proof -
  from rebuild_indexes_Inr[OF assms] obtain raw where
    "index_loop str_lower raw ([], []) = Inr (FOODS, ALIAS)" by blast
  moreover have "index_ok ([], [])" by (simp add: index_ok_def)
  ultimately show ?thesis by (rule index_loop_ok)
qed

text \<open>The index pair of the example corpus.\<close>

lemma example_index:
  "rebuild_indexes lower_norm example_files = (Inr (example_foods, example_alias), [])"
  by code_simp

section \<open>Properties of the similarity\<close>

text \<open>The matching blocks lie side by side in both strings, so together they hold no
  more characters than the two strings share; \<open>quick_ratio\<close> counts exactly those, and
  \<open>real_quick_ratio\<close> the length of the shorter string.\<close>

lemma window_split:
  assumes "lo \<le> i" "i + k \<le> hi"
  shows "window a lo hi = window a lo i @ window a i (i + k) @ window a (i + k) hi"
proof -
  have "[lo..<hi] = [lo..<i + k] @ [i + k..<hi]"
    using assms upt_add_eq_append[of lo "i + k" "hi - (i + k)"] by simp
  moreover have "[lo..<i + k] = [lo..<i] @ [i..<i + k]"
    using assms upt_add_eq_append[of lo i k] by simp
  ultimately have "[lo..<hi] = [lo..<i] @ [i..<i + k] @ [i + k..<hi]" by simp
  then show ?thesis by (simp add: window_def)
qed

lemma window_block:
  assumes "\<forall>t<k. a ! (i + t) = b ! (j + t)"
  shows "window a i (i + k) = window b j (j + k)"
  using assms by (auto simp: window_def intro!: nth_equalityI)

lemma window_whole: "window a 0 (length a) = a"
  by (simp add: window_def map_nth)

lemma length_window: "length (window a lo hi) = hi - lo"
  by (simp add: window_def)

lemma inter_three:
  "size (A1 \<inter># B1) + size C + size (A2 \<inter># B2) \<le>
   size ((A1 + C + A2) \<inter># (B1 + C + (B2 :: 'a multiset)))"
proof -
  have "(A1 \<inter># B1) + C + (A2 \<inter># B2) \<subseteq># A1 + C + A2"
    by (intro mset_subset_eq_mono_add) simp_all
  moreover have "(A1 \<inter># B1) + C + (A2 \<inter># B2) \<subseteq># B1 + C + B2"
    by (intro mset_subset_eq_mono_add) simp_all
  ultimately have "(A1 \<inter># B1) + C + (A2 \<inter># B2) \<subseteq># (A1 + C + A2) \<inter># (B1 + C + B2)"
    by simp
  from size_mset_mono[OF this] show ?thesis by simp
qed

lemma common_split:
  assumes "valid_match a b alo ahi blo bhi (i, j, k)"
  shows "common a b (alo, i, blo, j) + k + common a b (i + k, ahi, j + k, bhi) \<le>
     common a b (alo, ahi, blo, bhi)"
proof -
  from assms have v: "alo \<le> i" "i + k \<le> ahi" "blo \<le> j" "j + k \<le> bhi"
    "\<forall>t<k. a ! (i + t) = b ! (j + t)"
    by (auto simp: valid_match_def)
  have eq: "window a i (i + k) = window b j (j + k)" by (rule window_block[OF v(5)])
  have sz: "size (mset (window b j (j + k))) = k" by (simp add: length_window)
  have "mset (window a alo ahi) =
      mset (window a alo i) + mset (window b j (j + k)) + mset (window a (i + k) ahi)"
    using window_split[OF v(1,2), of a] eq by simp
  moreover have "mset (window b blo bhi) =
      mset (window b blo j) + mset (window b j (j + k)) + mset (window b (j + k) bhi)"
    using window_split[OF v(3,4), of b] by simp
  ultimately show ?thesis
    using inter_three[of "mset (window a alo i)" "mset (window b blo j)"
        "mset (window b j (j + k))" "mset (window a (i + k) ahi)" "mset (window b (j + k) bhi)"] sz
    by (simp add: common_def)
qed

lemma match_loop_bound:
  assumes "\<forall>(alo, ahi, blo, bhi)\<in>set queue. alo \<le> ahi \<and> blo \<le> bhi"
  shows "matched (match_loop a b queue blocks) \<le>
     matched blocks + sum_list (map (common a b) queue)"
  using assms
proof (induction a b queue blocks rule: match_loop.induct)
  case (1 a b matching_blocks)
  then show ?case by simp
next
  case (2 a b alo ahi blo bhi queue matching_blocks)
  obtain i j k where f: "find_longest_match a b alo ahi blo bhi = (i, j, k)"
    by (cases "find_longest_match a b alo ahi blo bhi") auto
  from 2(3) have w: "alo \<le> ahi" "blo \<le> bhi"
    and rest: "\<forall>(alo, ahi, blo, bhi)\<in>set queue. alo \<le> ahi \<and> blo \<le> bhi"
    by auto
  have v: "valid_match a b alo ahi blo bhi (i, j, k)"
    using find_longest_match_ok[OF w, of a b] f by simp
  show ?case
  proof (cases "k = 0")
    case True
    then have "\<not> k \<noteq> 0" by simp
    from 2(2)[OF f[symmetric] refl this rest] f True show ?thesis by simp
  next
    case False
    let ?right = "if i + k < ahi \<and> j + k < bhi then [(i + k, ahi, j + k, bhi)] else []"
    let ?left = "if alo < i \<and> blo < j then [(alo, i, blo, j)] else []"
    from v have b: "alo \<le> i" "i + k \<le> ahi" "blo \<le> j" "j + k \<le> bhi"
      by (auto simp: valid_match_def)
    have ok: "\<forall>(alo, ahi, blo, bhi)\<in>set (?right @ ?left @ queue). alo \<le> ahi \<and> blo \<le> bhi"
      using rest b by auto
    have ih: "matched (match_loop a b (?right @ ?left @ queue) (matching_blocks @ [(i, j, k)])) \<le>
        matched (matching_blocks @ [(i, j, k)]) + sum_list (map (common a b) (?right @ ?left @ queue))"
      using 2(1)[OF f[symmetric] refl False ok] .
    have "sum_list (map (common a b) ?right) \<le> common a b (i + k, ahi, j + k, bhi)"
      "sum_list (map (common a b) ?left) \<le> common a b (alo, i, blo, j)"
      by simp_all
    with common_split[OF v]
    have "k + sum_list (map (common a b) (?right @ ?left)) \<le> common a b (alo, ahi, blo, bhi)"
      by simp
    with ih have "matched (match_loop a b (?right @ ?left @ queue) (matching_blocks @ [(i, j, k)])) \<le>
        matched matching_blocks + (common a b (alo, ahi, blo, bhi) + sum_list (map (common a b) queue))"
      by (simp add: matched_def)
    with f False show ?thesis by simp
  qed
qed

lemma matches_le_common:
  "matched (get_matching_blocks a b) \<le> size (mset a \<inter># mset b)"
  using match_loop_bound[of "[(0, length a, 0, length b)]" a b "[]"]
  by (simp add: get_matching_blocks_def common_def window_whole matched_def)


lemma inter_add_mset_size:
  "size (add_mset x P \<inter># B) =
     size (P \<inter># B) + (if count P x < count B x then 1 else 0)"
proof (cases "count P x < count B x")
  case True
  have "add_mset x P \<inter># B = add_mset x (P \<inter># B)"
    using True by (intro multiset_eqI) auto
  with True show ?thesis by simp
next
  case False
  have "add_mset x P \<inter># B = P \<inter># B"
    using False by (intro multiset_eqI) auto
  with False show ?thesis by simp
qed

lemma quick_loop_common:
  assumes "\<forall>x. avail x =
     (if x \<in> set p then Some (int (count_list b x) - int (count_list p x)) else None)"
  shows "quick_loop b r avail (size (mset p \<inter># mset b)) = size (mset (p @ r) \<inter># mset b)"
  using assms
proof (induction r arbitrary: p avail)
  case Nil
  then show ?case by simp
next
  case (Cons elt r)
  define numb where "numb = (case avail elt of Some v \<Rightarrow> v | None \<Rightarrow> int (count_list b elt))"
  have numb: "numb = int (count_list b elt) - int (count_list p elt)"
    using Cons.prems by (cases "elt \<in> set p") (auto simp: numb_def)
  have pos: "numb > 0 \<longleftrightarrow> count (mset p) elt < count (mset b) elt"
    using numb by (simp add: count_mset)
  have inv: "\<forall>x. (avail(elt \<mapsto> numb - 1)) x =
     (if x \<in> set (p @ [elt]) then Some (int (count_list b x) - int (count_list (p @ [elt]) x))
      else None)"
    using Cons.prems numb by auto
  have sz: "(if numb > 0 then size (mset p \<inter># mset b) + 1 else size (mset p \<inter># mset b)) =
      size (mset (p @ [elt]) \<inter># mset b)"
    using inter_add_mset_size[of elt "mset p" "mset b"] pos by simp
  have "quick_loop b (elt # r) avail (size (mset p \<inter># mset b)) =
      quick_loop b r (avail(elt \<mapsto> numb - 1))
        (if numb > 0 then size (mset p \<inter># mset b) + 1 else size (mset p \<inter># mset b))"
    by (simp add: numb_def[symmetric] Let_def)
  also have "\<dots> = quick_loop b r (avail(elt \<mapsto> numb - 1)) (size (mset (p @ [elt]) \<inter># mset b))"
    by (simp only: sz)
  also have "\<dots> = size (mset ((p @ [elt]) @ r) \<inter># mset b)"
    by (rule Cons.IH[OF inv])
  finally show ?case by simp
qed

lemma quick_loop_eq: "quick_loop b a Map.empty 0 = size (mset a \<inter># mset b)"
  using quick_loop_common[of Map.empty "[]" b a] by simp

lemma calculate_ratio_mono: "m \<le> m' \<Longrightarrow> calculate_ratio m len \<le> calculate_ratio m' len"
  by (simp add: calculate_ratio_def divide_right_mono)

lemma ratio_matched: "ratio a b = calculate_ratio (matched (get_matching_blocks a b)) (length a + length b)"
  by (simp add: ratio_def matched_def)

lemma ratio_le_quick_ratio: "ratio a b \<le> quick_ratio a b"
  unfolding ratio_matched quick_ratio_def quick_loop_eq
  by (rule calculate_ratio_mono[OF matches_le_common])

lemma quick_ratio_le_real_quick_ratio: "quick_ratio a b \<le> real_quick_ratio a b"
proof -
  have "size (mset a \<inter># mset b) \<le> size (mset a)"
    by (rule size_mset_mono) simp
  moreover have "size (mset a \<inter># mset b) \<le> size (mset b)"
    by (rule size_mset_mono) simp
  ultimately have "size (mset a \<inter># mset b) \<le> min (length a) (length b)" by simp
  then show ?thesis
    unfolding quick_ratio_def real_quick_ratio_def quick_loop_eq
    by (rule calculate_ratio_mono)
qed

lemma ratio_bounds: "0 \<le> ratio a b \<and> ratio a b \<le> 1"
proof -
  have "ratio a b \<le> real_quick_ratio a b"
    using ratio_le_quick_ratio quick_ratio_le_real_quick_ratio by (rule order_trans)
  also have "real_quick_ratio a b \<le> 1"
  proof -
    have "2 * min (length a) (length b) \<le> length a + length b" by simp
    then have "2 * (of_nat (min (length a) (length b)) :: rat) \<le> of_nat (length a + length b)"
      by (metis of_nat_mult of_nat_le_iff of_nat_numeral)
    then show ?thesis
      by (simp add: real_quick_ratio_def calculate_ratio_def divide_le_eq_1 del: of_nat_add of_nat_min)
  qed
  finally have "ratio a b \<le> 1" .
  moreover have "0 \<le> ratio a b"
    by (simp add: ratio_def calculate_ratio_def)
  ultimately show ?thesis by simp
qed

lemma close_enough_iff:
  "(real_quick_ratio x word \<ge> cutoff \<and> quick_ratio x word \<ge> cutoff \<and> ratio x word \<ge> cutoff) \<longleftrightarrow>
   ratio x word \<ge> cutoff"
  using ratio_le_quick_ratio[of x word] quick_ratio_le_real_quick_ratio[of x word] by auto

section \<open>Properties of the resolver\<close>

lemma fresh_removeAll: "x \<in> S \<Longrightarrow> fresh S (removeAll x xs) = fresh S xs"
  by (induction xs arbitrary: S) auto

lemma set_keep_first: "set (keep_first xs) = set xs"
  by (induction xs rule: keep_first.induct) auto

lemma fresh_keep_first: "fresh S xs = filter (\<lambda>x. x \<notin> S) (keep_first xs)"
proof (induction xs arbitrary: S rule: keep_first.induct)
  case 1
  then show ?case by simp
next
  case (2 x xs)
  show ?case
  proof (cases "x \<in> S")
    case True
    then have "fresh S (x # xs) = fresh S (removeAll x xs)"
      by (simp add: fresh_removeAll)
    with True 2 show ?thesis by simp
  next
    case False
    have "fresh S (x # xs) = x # fresh (insert x S) (removeAll x xs)"
      using False by (simp add: fresh_removeAll)
    also have "\<dots> = x # filter (\<lambda>y. y \<notin> insert x S) (keep_first (removeAll x xs))"
      using 2 by simp
    also have "filter (\<lambda>y. y \<notin> insert x S) (keep_first (removeAll x xs)) =
        filter (\<lambda>y. y \<notin> S) (keep_first (removeAll x xs))"
      by (rule filter_cong) (auto simp: set_keep_first)
    finally show ?thesis using False by simp
  qed
qed

lemma fresh_empty: "fresh {} xs = keep_first xs"
  by (simp add: fresh_keep_first)

lemma collect_fresh:
  assumes "\<forall>m\<in>set ms. map_of ALIAS m \<noteq> None" "int (length out) < max n 1"
  shows "collect ALIAS n ms (set out) out =
     Inr (out @ take (nat (max n 1) - length out) (fresh (set out) (map (alias_key ALIAS) ms)))"
  using assms
proof (induction ms arbitrary: out)
  case Nil
  then show ?case by simp
next
  case (Cons m ms)
  then obtain c where c: "map_of ALIAS m = Some c" by auto
  then have ak: "alias_key ALIAS m = c" by (simp add: alias_key_def)
  have rest: "\<forall>m\<in>set ms. map_of ALIAS m \<noteq> None" using Cons.prems(1) by simp
  show ?case
  proof (cases "c \<in> set out")
    case True
    then have "out \<noteq> []" by auto
    with Cons.prems(2) have "int (length out) < n" by (cases out) (auto simp: max_def split: if_splits)
    with True c ak Cons.IH[OF rest Cons.prems(2)] show ?thesis by simp
  next
    case False
    show ?thesis
    proof (cases "int (length (out @ [c])) \<ge> n")
      case True
      then have "nat (max n 1) - length out = 1"
        using Cons.prems(2) by (auto simp: max_def split: if_splits)
      with True False c ak show ?thesis by simp
    next
      case ge: False
      then have lt: "int (length (out @ [c])) < max n 1" by simp
      have "nat (max n 1) - length out = Suc (nat (max n 1) - length (out @ [c]))"
        using lt by (auto simp: max_def split: if_splits)
      with ge False c ak Cons.IH[OF rest lt] show ?thesis by simp
    qed
  qed
qed

lemma collect_keep_first:
  assumes "\<forall>m\<in>set ms. map_of ALIAS m \<noteq> None"
  shows "collect ALIAS n ms {} [] =
     Inr (take (nat (max n 1)) (keep_first (map (alias_key ALIAS) ms)))"
  using collect_fresh[OF assms, of "[]" n] by (simp add: fresh_empty)

lemma get_close_matches_sorted:
  assumes "0 < n" "0 \<le> cutoff" "cutoff \<le> 1"
  shows "get_close_matches word possibilities n cutoff =
     Inr (take (nat n) (map snd (rev (sort (map (\<lambda>a. (ratio a word, a))
       (filter (\<lambda>a. ratio a word \<ge> cutoff) possibilities))))))"
proof -
  have "filter (\<lambda>x. real_quick_ratio x word \<ge> cutoff \<and> quick_ratio x word \<ge> cutoff \<and>
      ratio x word \<ge> cutoff) possibilities = filter (\<lambda>a. ratio a word \<ge> cutoff) possibilities"
    by (simp add: close_enough_iff)
  with assms show ?thesis
    by (simp add: get_close_matches_def take_map Let_def)
qed

lemma get_close_matches_ranked:
  assumes "0 < n"
  shows "get_close_matches qn (map fst ALIAS) n (45 / 100) = Inr (take (nat n) (ranked ALIAS qn))"
proof -
  have "(0::rat) \<le> 45 / 100" "(45 / 100 :: rat) \<le> 1" by simp_all
  from get_close_matches_sorted[OF assms this] show ?thesis
    unfolding ranked_def .
qed

lemma set_ranked: "set (ranked ALIAS qn) \<subseteq> fst ` set ALIAS"
  by (force simp: ranked_def)

lemma ranked_known:
  "\<forall>m\<in>set (take k (ranked ALIAS qn)). map_of ALIAS m \<noteq> None"
proof
  fix m assume "m \<in> set (take k (ranked ALIAS qn))"
  then have "m \<in> fst ` set ALIAS" using set_ranked in_set_takeD by fastforce
  then show "map_of ALIAS m \<noteq> None" by (simp add: map_of_eq_None_iff)
qed

lemma search_foods_exact:
  assumes "norm_text q \<noteq> []" "map_of ALIAS (norm_text q) = Some canon"
  shows "search_foods_with matcher ALIAS q n = Inr [canon]"
  using assms by (simp add: search_foods_with_def)

lemma search_foods_fuzzy:
  assumes "norm_text q \<noteq> []" "map_of ALIAS (norm_text q) = None"
  shows "search_foods ALIAS q n =
     Inr (take (nat (max n 1))
       (keep_first (map (alias_key ALIAS)
          (take (nat (max (n * 3) 60)) (ranked ALIAS (norm_text q))))))"
proof -
  have pos: "0 < max (n * 3) 60" by simp
  have "search_foods ALIAS q n =
      collect ALIAS n (take (nat (max (n * 3) 60)) (ranked ALIAS (norm_text q))) {} []"
    unfolding search_foods_def search_foods_with_def Let_def
    by (simp only: assms get_close_matches_ranked[OF pos] if_False option.case sum.case)
  also have "\<dots> = Inr (take (nat (max n 1))
       (keep_first (map (alias_key ALIAS)
          (take (nat (max (n * 3) 60)) (ranked ALIAS (norm_text q))))))"
    by (rule collect_keep_first[OF ranked_known])
  finally show ?thesis .
qed

lemma keep_first_keys:
  "set (keep_first (map (alias_key ALIAS) (take k (ranked ALIAS qn)))) \<subseteq> snd ` set ALIAS"
proof -
  have "alias_key ALIAS m \<in> snd ` set ALIAS" if "m \<in> fst ` set ALIAS" for m
  proof -
    from that obtain c where "map_of ALIAS m = Some c"
      by (cases "map_of ALIAS m") (auto simp: map_of_eq_None_iff)
    then show ?thesis
      using map_of_SomeD[of ALIAS m c] by (force simp: alias_key_def)
  qed
  moreover have "m \<in> fst ` set ALIAS" if "m \<in> set (take k (ranked ALIAS qn))" for m
    using that set_ranked[of ALIAS qn] in_set_takeD[of m k] by blast
  ultimately show ?thesis
    by (auto simp: set_keep_first)
qed

lemma search_foods_total:
  "\<exists>ks. search_foods ALIAS q n = Inr ks \<and> set ks \<subseteq> snd ` set ALIAS \<and>
     int (length ks) \<le> max n 1"
proof (cases "norm_text q = []")
  case True
  then show ?thesis by (simp add: search_foods_def search_foods_with_def)
next
  case ne: False
  show ?thesis
  proof (cases "map_of ALIAS (norm_text q)")
    case None
    have "set (take (nat (max n 1)) (keep_first (map (alias_key ALIAS)
          (take (nat (max (n * 3) 60)) (ranked ALIAS (norm_text q)))))) \<subseteq> snd ` set ALIAS"
      using keep_first_keys[of ALIAS "nat (max (n * 3) 60)" "norm_text q"]
      by (meson in_set_takeD subset_iff)
    then show ?thesis
      using search_foods_fuzzy[OF ne None, of n] by auto
  next
    case (Some c)
    then have "c \<in> snd ` set ALIAS" using map_of_SomeD[of ALIAS "norm_text q" c] by force
    then show ?thesis
      using search_foods_exact[OF ne Some, of get_close_matches n]
      by (simp add: search_foods_def)
  qed
qed

lemma length_keep_first_pos: "xs \<noteq> [] \<Longrightarrow> keep_first xs \<noteq> []"
  by (cases xs) auto

lemma index_ok_keys:
  assumes "index_ok (FOODS, ALIAS)" "map_of ALIAS a = Some c"
  shows "a \<noteq> [] \<and> map_of FOODS c \<noteq> None"
proof -
  from assms(2) have "(a, c) \<in> set ALIAS" by (rule map_of_SomeD)
  with assms(1) have "a \<noteq> []" "c \<in> fst ` set FOODS"
    by (auto simp: index_ok_def list_all_iff)
  then show ?thesis by (simp add: map_of_eq_None_iff)
qed

lemma index_ok_values:
  assumes "index_ok (FOODS, ALIAS)" "c \<in> snd ` set ALIAS"
  shows "map_of FOODS c \<noteq> None"
proof -
  from assms have "c \<in> fst ` set FOODS"
    by (auto simp: index_ok_def list_all_iff)
  then show ?thesis by (simp add: map_of_eq_None_iff)
qed

text \<open>
  C2. When the normalized query is a key of the alias map that \<open>rebuild_indexes\<close> built,
  \<open>search_foods\<close> returns the one-element list of that alias's canonical key, for every
  limit; and so it does with any function put in the place of
  \<open>difflib.get_close_matches\<close>: the fuzzy step is not reached.
\<close>

theorem exact_alias_short_circuit:
  assumes "rebuild_indexes str_lower fs = (Inr (FOODS, ALIAS), logged)"
    and "map_of ALIAS (norm_text q) = Some canon"
  shows "search_foods ALIAS q n = Inr [canon] \<and>
     (\<forall>matcher. search_foods_with matcher ALIAS q n = Inr [canon])"
proof -
  have "norm_text q \<noteq> []"
    using index_ok_keys[OF rebuild_indexes_ok[OF assms(1)] assms(2)] by simp
  then show ?thesis
    using search_foods_exact[OF _ assms(2)] by (simp add: search_foods_def)
qed

text \<open>The query \<open>Shpinat\<close> in Ukrainian, with a capital, hits the alias of the synonym.\<close>

theorem exact_alias_short_circuit_witness:
  "rebuild_indexes lower_norm example_files = (Inr (example_foods, example_alias), []) \<and>
   map_of example_alias (norm_text [1064, 1087, 1110, 1085, 1072, 1090]) = Some (u ''spinach'') \<and>
   search_foods example_alias [1064, 1087, 1110, 1085, 1072, 1090] 5 = Inr [u ''spinach'']"
proof -
  have h: "map_of example_alias (norm_text [1064, 1087, 1110, 1085, 1072, 1090]) =
      Some (u ''spinach'')"
    by code_simp
  from exact_alias_short_circuit[OF example_index h, of 5] example_index h
  show ?thesis by blast
qed

text \<open>
  C10. For every alias map, query and integer limit \<open>n\<close>, \<open>search_foods\<close> returns a list
  of at most \<open>max(n, 1)\<close> keys. For \<open>n \<le> 0\<close> and a query that normalizes to something, an
  exact alias hit or the existence of one fuzzy candidate gives exactly one key: the limit
  is not a bound of zero.
\<close>

theorem resolve_length:
  "\<exists>ks. search_foods ALIAS q n = Inr ks \<and> int (length ks) \<le> max n 1 \<and>
     (n \<le> 0 \<and> norm_text q \<noteq> [] \<and>
      (map_of ALIAS (norm_text q) \<noteq> None \<or> ranked ALIAS (norm_text q) \<noteq> []) \<longrightarrow>
      length ks = 1)"
proof -
  from search_foods_total[of ALIAS q n] obtain ks where
    ks: "search_foods ALIAS q n = Inr ks" "int (length ks) \<le> max n 1"
    by blast
  have "length ks = 1"
    if h: "n \<le> 0" "norm_text q \<noteq> []"
      "map_of ALIAS (norm_text q) \<noteq> None \<or> ranked ALIAS (norm_text q) \<noteq> []"
  proof (cases "map_of ALIAS (norm_text q)")
    case (Some c)
    from search_foods_exact[OF h(2) Some, of get_close_matches n] ks(1)
    have "ks = [c]" by (simp add: search_foods_def)
    then show ?thesis by simp
  next
    case None
    with h(3) have "ranked ALIAS (norm_text q) \<noteq> []" by simp
    then have "take (nat (max (n * 3) 60)) (ranked ALIAS (norm_text q)) \<noteq> []" by simp
    then have "keep_first (map (alias_key ALIAS)
        (take (nat (max (n * 3) 60)) (ranked ALIAS (norm_text q)))) \<noteq> []"
      by (intro length_keep_first_pos) simp
    then have "length (take (nat (max n 1)) (keep_first (map (alias_key ALIAS)
        (take (nat (max (n * 3) 60)) (ranked ALIAS (norm_text q)))))) = 1"
      using h(1) by (cases "keep_first (map (alias_key ALIAS)
        (take (nat (max (n * 3) 60)) (ranked ALIAS (norm_text q))))") (auto simp: max_def)
    with search_foods_fuzzy[OF h(2) None, of n] ks(1) show ?thesis by simp
  qed
  with ks show ?thesis by blast
qed

text \<open>With the limit 0 the misspelt \<open>spinch\<close> still resolves to one key.\<close>

theorem resolve_length_witness:
  "norm_text (u ''spinch'') \<noteq> [] \<and> ranked example_alias (norm_text (u ''spinch'')) \<noteq> [] \<and>
   (\<exists>ks. search_foods example_alias (u ''spinch'') 0 = Inr ks \<and> length ks = 1)"
proof -
  have h: "norm_text (u ''spinch'') \<noteq> []" by code_simp
  have r: "ranked example_alias (norm_text (u ''spinch'')) \<noteq> []" by code_simp
  from resolve_length[of example_alias "u ''spinch''" 0] h r
  show ?thesis by auto
qed

text \<open>
  C9. In the index pair that \<open>rebuild_indexes\<close> builds, every value of the alias map is
  a key of the foods map. So for every query and limit \<open>search_foods\<close> returns, and every
  key it returns, on the exact path and on the fuzzy path, is found in \<open>FOODS\<close>.
\<close>

theorem alias_values_are_food_keys:
  assumes "rebuild_indexes str_lower fs = (Inr (FOODS, ALIAS), logged)"
  shows "(\<forall>(a, c)\<in>set ALIAS. map_of FOODS c \<noteq> None) \<and>
     (\<forall>q n. \<exists>ks. search_foods ALIAS q n = Inr ks \<and> (\<forall>k\<in>set ks. map_of FOODS k \<noteq> None))"
proof -
  note ok = rebuild_indexes_ok[OF assms]
  have 1: "\<forall>(a, c)\<in>set ALIAS. map_of FOODS c \<noteq> None"
    using index_ok_values[OF ok] by force
  have 2: "\<exists>ks. search_foods ALIAS q n = Inr ks \<and> (\<forall>k\<in>set ks. map_of FOODS k \<noteq> None)" for q n
  proof -
    from search_foods_total[of ALIAS q n] obtain ks where
      ks: "search_foods ALIAS q n = Inr ks" "set ks \<subseteq> snd ` set ALIAS"
      by blast
    then have "\<forall>k\<in>set ks. map_of FOODS k \<noteq> None"
      using index_ok_values[OF ok] by blast
    with ks(1) show ?thesis by blast
  qed
  from 1 2 show ?thesis by blast
qed

text \<open>The example index.\<close>

theorem alias_values_are_food_keys_witness:
  "rebuild_indexes lower_norm example_files = (Inr (example_foods, example_alias), []) \<and>
   list_all (\<lambda>(a, c). map_of example_foods c \<noteq> None) example_alias \<and>
   (\<exists>ks. search_foods example_alias (u ''spinch'') 5 = Inr ks \<and>
      list_all (\<lambda>k. map_of example_foods k \<noteq> None) ks)"
  using alias_values_are_food_keys[OF example_index] example_index
  by (simp add: list_all_iff)

text \<open>
  C3. Let \<open>r\<close> be an entry of the merged corpus, and \<open>s\<close> a string among the values that
  \<open>rebuild_indexes\<close> registers for it, which are its two names followed by its synonyms
  in both languages, whose normalization is not empty. If no later entry registers the
  same normalized string, \<open>search_foods(s, 1)\<close> over the built alias map is the
  one-element list of the canonical key of \<open>r\<close>, the lower-cased primary name.
\<close>

theorem registered_alias_round_trip:
  assumes "rebuild_indexes str_lower fs = (Inr (FOODS, ALIAS), logged)"
    and "fst (load_foods_merged fs) = Inr (pre @ r # post)"
    and "JStr s \<in> set (record_variants str_lower r)" "norm_text s \<noteq> []"
    and "\<forall>r'\<in>set post. \<forall>v\<in>set (record_variants str_lower r'). norm_value v \<noteq> Inr (norm_text s)"
  shows "search_foods ALIAS s 1 = Inr [record_canon str_lower r] \<and>
     (\<exists>item se su. make_item str_lower (fst r) (snd r) = Inr item \<and>
        py_iter (synonyms_en item) = Inr se \<and> py_iter (synonyms_uk item) = Inr su \<and>
        record_variants str_lower r = [JStr (name_en item), JStr (name_uk item)] @ se @ su \<and>
        record_canon str_lower r = str_lower (name_en item))"
proof
  from rebuild_indexes_Inr[OF assms(1)] assms(2)
  have "index_loop str_lower (pre @ [r] @ post) ([], []) = Inr (FOODS, ALIAS)" by auto
  then obtain st1 st2 where pre: "index_loop str_lower pre ([], []) = Inr st1"
    and one: "index_loop str_lower [r] st1 = Inr st2"
    and post: "index_loop str_lower post st2 = Inr (FOODS, ALIAS)"
    unfolding index_loop_append by blast
  from one have rec: "index_record str_lower r (fst st1, snd st1) = Inr (fst st2, snd st2)"
    by (auto split: sum.splits)
  have "norm_value (JStr s) = Inr (norm_text s)"
    using assms(4) by (cases s) (simp_all add: norm_value_def py_or_def norm_text_def strip_def lower_norm_def)
  then have "Inr (norm_text s) \<in> norm_value ` set (record_variants str_lower r)"
    using assms(3) by (metis image_eqI)
  with index_record_map_of[OF rec, of "norm_text s"] assms(4)
  have "map_of (snd st2) (norm_text s) = Some (record_canon str_lower r)" by simp
  moreover have "map_of (snd (FOODS, ALIAS)) (norm_text s) = map_of (snd st2) (norm_text s)"
    by (rule index_loop_untouched[OF post assms(5)])
  ultimately have "map_of ALIAS (norm_text s) = Some (record_canon str_lower r)" by simp
  from search_foods_exact[OF assms(4) this, of get_close_matches 1]
  show "search_foods ALIAS s 1 = Inr [record_canon str_lower r]"
    by (simp add: search_foods_def)
next
  from assms(3) obtain item where i: "make_item str_lower (fst r) (snd r) = Inr item"
    by (cases "make_item str_lower (fst r) (snd r)") (simp_all add: record_variants_def)
  with assms(3) obtain vs where v: "variants item = Inr vs"
    by (cases "variants item") (simp_all add: record_variants_def)
  then obtain se su where "py_iter (synonyms_en item) = Inr se"
    "py_iter (synonyms_uk item) = Inr su"
    "vs = [JStr (name_en item), JStr (name_uk item)] @ se @ su"
    by (auto simp: variants_def bind_result_def split: sum.splits)
  with i v show "\<exists>item se su. make_item str_lower (fst r) (snd r) = Inr item \<and>
        py_iter (synonyms_en item) = Inr se \<and> py_iter (synonyms_uk item) = Inr su \<and>
        record_variants str_lower r = [JStr (name_en item), JStr (name_uk item)] @ se @ su \<and>
        record_canon str_lower r = str_lower (name_en item)"
    by (simp add: record_variants_def record_canon_def)
qed

text \<open>The Ukrainian name of the first record of the example corpus, as the corpus
  writes it.\<close>

theorem registered_alias_round_trip_witness:
  "fst (load_foods_merged example_files) =
     Inr ([] @ (u ''spinach'', spinach_record) # [(u ''kale'', kale_record), (u ''tea'', tea_record)]) \<and>
   JStr [1064, 1087, 1080, 1085, 1072, 1090] \<in>
     set (record_variants lower_norm (u ''spinach'', spinach_record)) \<and>
   norm_text [1064, 1087, 1080, 1085, 1072, 1090] \<noteq> [] \<and>
   record_canon lower_norm (u ''spinach'', spinach_record) = u ''spinach'' \<and>
   search_foods example_alias [1064, 1087, 1080, 1085, 1072, 1090] 1 = Inr [u ''spinach'']"
proof -
  have h2: "fst (load_foods_merged example_files) =
     Inr ([] @ (u ''spinach'', spinach_record) # [(u ''kale'', kale_record), (u ''tea'', tea_record)])"
    by code_simp
  have h3: "JStr [1064, 1087, 1080, 1085, 1072, 1090] \<in>
      set (record_variants lower_norm (u ''spinach'', spinach_record))"
    by code_simp
  have h4: "norm_text [1064, 1087, 1080, 1085, 1072, 1090] \<noteq> []" by code_simp
  have h5: "\<forall>r'\<in>set [(u ''kale'', kale_record), (u ''tea'', tea_record)].
      \<forall>v\<in>set (record_variants lower_norm r').
        norm_value v \<noteq> Inr (norm_text [1064, 1087, 1080, 1085, 1072, 1090])"
    by code_simp
  have c: "record_canon lower_norm (u ''spinach'', spinach_record) = u ''spinach''" by code_simp
  from registered_alias_round_trip[OF example_index h2 h3 h4 h5] h2 h3 h4 c
  show ?thesis by simp
qed

text \<open>
  C1, as the code has it. For a query whose normalization is not empty and is not an alias,
  \<open>search_foods(q, n)\<close> is the list obtained from the aliases ranked by similarity (at
  least 0.45, descending) by keeping the first \<open>max(3n, 60)\<close> of them, taking their
  canonical keys, removing duplicates (first occurrence kept) and truncating to
  \<open>max(n, 1)\<close>. The similarity, for which the specification's measure is taken to be
  the \<open>ratio\<close> of the code, lies between 0 and 1. Where \<open>n \<ge> 1\<close> and no more than
  \<open>max(3n, 60)\<close> aliases reach 0.45, this is the list of the specification.
\<close>

theorem fuzzy_resolution:
  assumes "norm_text q \<noteq> []" "map_of ALIAS (norm_text q) = None"
  shows "search_foods ALIAS q n =
     Inr (take (nat (max n 1))
       (keep_first (map (alias_key ALIAS)
          (take (nat (max (n * 3) 60)) (ranked ALIAS (norm_text q)))))) \<and>
     (\<forall>a. 0 \<le> ratio a (norm_text q) \<and> ratio a (norm_text q) \<le> 1) \<and>
     (1 \<le> n \<and> int (length (ranked ALIAS (norm_text q))) \<le> max (n * 3) 60 \<longrightarrow>
        search_foods ALIAS q n = Inr (spec_resolve ALIAS q n))"
proof (intro conjI allI impI)
  show "search_foods ALIAS q n =
     Inr (take (nat (max n 1))
       (keep_first (map (alias_key ALIAS)
          (take (nat (max (n * 3) 60)) (ranked ALIAS (norm_text q))))))"
    by (rule search_foods_fuzzy[OF assms])
  show "0 \<le> ratio a (norm_text q)" "ratio a (norm_text q) \<le> 1" for a
    using ratio_bounds[of a "norm_text q"] by simp_all
next
  assume h: "1 \<le> n \<and> int (length (ranked ALIAS (norm_text q))) \<le> max (n * 3) 60"
  then have "length (ranked ALIAS (norm_text q)) \<le> nat (max (n * 3) 60)"
    by linarith
  then have "take (nat (max (n * 3) 60)) (ranked ALIAS (norm_text q)) = ranked ALIAS (norm_text q)"
    by simp
  moreover have "max n 1 = n" using h by simp
  ultimately show "search_foods ALIAS q n = Inr (spec_resolve ALIAS q n)"
    using search_foods_fuzzy[OF assms, of n] by (simp add: spec_resolve_def)
qed

text \<open>The misspelt \<open>spinch\<close> over the example index: one alias is similar enough.\<close>

theorem fuzzy_resolution_witness:
  "norm_text (u ''spinch'') \<noteq> [] \<and> map_of example_alias (norm_text (u ''spinch'')) = None \<and>
   ranked example_alias (norm_text (u ''spinch'')) = [u ''spinach''] \<and>
   ratio (u ''spinach'') (u ''spinch'') = 12 / 13 \<and>
   search_foods example_alias (u ''spinch'') 5 = Inr [u ''spinach''] \<and>
   spec_resolve example_alias (u ''spinch'') 5 = [u ''spinach'']"
proof -
  have h1: "norm_text (u ''spinch'') \<noteq> []" by code_simp
  have h2: "map_of example_alias (norm_text (u ''spinch'')) = None" by code_simp
  have r: "ranked example_alias (norm_text (u ''spinch'')) = [u ''spinach'']" by code_simp
  have q: "ratio (u ''spinach'') (u ''spinch'') = 12 / 13" by code_simp
  have s: "search_foods example_alias (u ''spinch'') 5 = Inr [u ''spinach'']" by code_simp
  have p: "spec_resolve example_alias (u ''spinch'') 5 = [u ''spinach'']" by code_simp
  from fuzzy_resolution[OF h1 h2, of 5] h1 h2 r q s p show ?thesis
    by blast
qed

text \<open>
  The list of the specification is not what \<open>search_foods\<close> returns over the crowded
  corpus: with the limit 2 only the sixty most similar aliases are looked at, all of the
  first record, and the second record, whose name is similar enough as well, is not
  returned. The name of the second record is less similar to the query than every other
  alias, so this does not depend on the order of equally similar aliases. With the limit
  0 one key is returned, where the specification truncates to none.
\<close>

theorem fuzzy_resolution_counterexample:
  "map_sum id snd (fst (rebuild_indexes lower_norm crowded_files)) = Inr crowded_alias \<and>
   norm_text (u ''ab'') = u ''ab'' \<and> map_of crowded_alias (u ''ab'') = None \<and>
   list_all (\<lambda>(a, c). if a = u ''abxyz'' then ratio a (u ''ab'') = 4 / 7 \<and> c = u ''abxyz''
      else 4 / 7 < ratio a (u ''ab'') \<and> c = u ''ab0'') crowded_alias \<and>
   ranked crowded_alias (u ''ab'') = crowded_ranked \<and>
   search_foods crowded_alias (u ''ab'') 2 = Inr [u ''ab0''] \<and>
   spec_resolve crowded_alias (u ''ab'') 2 = [u ''ab0'', u ''abxyz''] \<and>
   search_foods crowded_alias (u ''ab'') 0 = Inr [u ''ab0''] \<and>
   spec_resolve crowded_alias (u ''ab'') 0 = []"
proof -
  have a: "map_sum id snd (fst (rebuild_indexes lower_norm crowded_files)) = Inr crowded_alias"
    by code_simp
  have n: "norm_text (u ''ab'') = u ''ab''" by code_simp
  have m: "map_of crowded_alias (u ''ab'') = None" by code_simp
  have r: "ranked crowded_alias (u ''ab'') = crowded_ranked" by code_simp
  have l: "list_all (\<lambda>(a, c). if a = u ''abxyz'' then ratio a (u ''ab'') = 4 / 7 \<and> c = u ''abxyz''
      else 4 / 7 < ratio a (u ''ab'') \<and> c = u ''ab0'') crowded_alias"
    by code_simp
  have k60: "keep_first (map (alias_key crowded_alias) (take 60 crowded_ranked)) = [u ''ab0'']"
    by code_simp
  have kall: "keep_first (map (alias_key crowded_alias) crowded_ranked) = [u ''ab0'', u ''abxyz'']"
    by code_simp
  have ne: "norm_text (u ''ab'') \<noteq> []" by code_simp
  have m': "map_of crowded_alias (norm_text (u ''ab'')) = None" by (simp only: n m)
  have s2: "search_foods crowded_alias (u ''ab'') 2 = Inr [u ''ab0'']"
    using search_foods_fuzzy[OF ne m', of 2] by (simp add: n r k60)
  have s0: "search_foods crowded_alias (u ''ab'') 0 = Inr [u ''ab0'']"
    using search_foods_fuzzy[OF ne m', of 0] by (simp add: n r k60)
  have p2: "spec_resolve crowded_alias (u ''ab'') 2 = [u ''ab0'', u ''abxyz'']"
    by (simp add: spec_resolve_def n r kall)
  have p0: "spec_resolve crowded_alias (u ''ab'') 0 = []"
    by (simp add: spec_resolve_def)
  from a n m l r s2 s0 p2 p0 show ?thesis by blast
qed

section \<open>Properties of the corpus loader\<close>

lemma map_of_foldl_update:
  "map_of (foldl (\<lambda>d (k, v). AList.update k v d) d kvs) x =
     (case map_of (rev kvs) x of Some v \<Rightarrow> Some v | None \<Rightarrow> map_of d x)"
proof (induction kvs arbitrary: d)
  case Nil
  then show ?case by simp
next
  case (Cons kv kvs)
  obtain k v where kv: "kv = (k, v)" by (cases kv)
  show ?case
    by (simp add: kv Cons.IH update_conv' map_add_def split: option.splits)
qed

lemma map_of_rev_distinct: "distinct (map fst xs) \<Longrightarrow> map_of (rev xs) = map_of xs"
proof (induction xs)
  case Nil
  then show ?case by simp
next
  case (Cons kv xs)
  obtain k v where kv: "kv = (k, v)" by (cases kv)
  from Cons.prems have k: "k \<notin> fst ` set xs" and d: "distinct (map fst xs)"
    by (auto simp: kv)
  then have "map_of xs k = None" by (simp add: map_of_eq_None_iff)
  then show ?case
    using Cons.IH[OF d] by (auto simp: kv map_add_def fun_eq_iff split: option.splits)
qed

lemma map_of_dict_of_items:
  assumes "distinct (map fst base)" "distinct (map fst over)"
  shows "map_of (dict_of_items (base @ over)) x =
     (case map_of over x of Some v \<Rightarrow> Some v | None \<Rightarrow> map_of base x)"
proof -
  have "map_of (rev (base @ over)) x =
      (case map_of (rev over) x of Some v \<Rightarrow> Some v | None \<Rightarrow> map_of (rev base) x)"
    by (simp add: map_add_def split: option.splits)
  then show ?thesis
    unfolding dict_of_items_def map_of_foldl_update
    by (simp add: map_of_rev_distinct[OF assms(1)] map_of_rev_distinct[OF assms(2)]
        split: option.splits)
qed

text \<open>
  C6. Let both files hold a JSON object (a \<open>JObj\<close> stands for a Python dict, so its keys
  are distinct). Then \<open>load_foods_merged\<close> returns a merged corpus in which every key of
  the override has the record of the override, whole, and every other key has the record
  of the base. So when the override has a record for a key, a field that only the base
  record of that key has is not in the merged record.
\<close>

theorem override_replaces_record:
  assumes "foods_json fs = Json (JObj base)" "user_foods_json fs = Json (JObj over)"
    and "distinct (map fst base)" "distinct (map fst over)"
  shows "\<exists>merged. fst (load_foods_merged fs) = Inr merged \<and>
     (\<forall>k. map_of merged k =
        (case map_of over k of Some r \<Rightarrow> Some r | None \<Rightarrow> map_of base k)) \<and>
     (\<forall>k r rb f. map_of over k = Some (JObj r) \<and> map_of base k = Some (JObj rb) \<and>
        f \<in> fst ` set rb \<and> f \<notin> fst ` set r \<longrightarrow>
        map_of merged k = Some (JObj r) \<and> map_of r f = None)"
proof -
  have l: "fst (load_foods_merged fs) = Inr (dict_of_items (base @ over))"
    using assms(1,2)
    by (simp add: load_foods_merged_def load_json_dict_def merge_dicts_def Let_def)
  have m: "map_of (dict_of_items (base @ over)) k =
      (case map_of over k of Some r \<Rightarrow> Some r | None \<Rightarrow> map_of base k)" for k
    by (rule map_of_dict_of_items[OF assms(3,4)])
  have "map_of (dict_of_items (base @ over)) k = Some (JObj r) \<and> map_of r f = None"
    if "map_of over k = Some (JObj r) \<and> map_of base k = Some (JObj rb) \<and>
        f \<in> fst ` set rb \<and> f \<notin> fst ` set r" for k r rb f
    using that m[of k] by (simp add: map_of_eq_None_iff)
  with l m show ?thesis by blast
qed



text \<open>The base corpus and the override of the examples: \<open>spinach\<close> gets the record of
  the override, without the field \<open>image\<close> of the base; \<open>kale\<close> keeps the record of the
  base.\<close>

theorem override_replaces_record_witness:
  "distinct (map fst base_corpus) \<and> distinct (map fst override_corpus) \<and>
   (\<exists>merged. fst (load_foods_merged merge_files) = Inr merged \<and>
      map fst merged = [u ''spinach'', u ''kale'', u ''tea''] \<and>
      map_of merged (u ''spinach'') = Some spinach_record \<and>
      map_of merged (u ''kale'') = Some kale_record) \<and>
   map_of base_corpus (u ''spinach'') =
     Some (JObj [(u ''name_en'', JStr (u ''Spinach'')), (u ''image'', JStr (u ''s.png''))]) \<and>
   dict_get [(u ''name_en'', JStr (u ''Spinach'')), (u ''image'', JStr (u ''s.png''))] (u ''image'') =
     JStr (u ''s.png'') \<and>
   (case spinach_record of JObj r \<Rightarrow> map_of r (u ''image'') = None | _ \<Rightarrow> False)"
proof -
  have h1: "foods_json merge_files = Json (JObj base_corpus)"
    and h2: "user_foods_json merge_files = Json (JObj override_corpus)"
    by (simp_all add: merge_files_def)
  have d1: "distinct (map fst base_corpus)" by code_simp
  have d2: "distinct (map fst override_corpus)" by code_simp
  have v: "fst (load_foods_merged merge_files) =
      Inr [(u ''spinach'', spinach_record), (u ''kale'', kale_record), (u ''tea'', tea_record)]"
    by code_simp
  have o: "map_of override_corpus (u ''spinach'') = Some spinach_record"
    "map_of override_corpus (u ''kale'') = None"
    "map_of base_corpus (u ''kale'') = Some kale_record"
    by code_simp+
  have b: "map_of base_corpus (u ''spinach'') =
     Some (JObj [(u ''name_en'', JStr (u ''Spinach'')), (u ''image'', JStr (u ''s.png''))])"
    by code_simp
  have g: "dict_get [(u ''name_en'', JStr (u ''Spinach'')), (u ''image'', JStr (u ''s.png''))]
      (u ''image'') = JStr (u ''s.png'')"
    by code_simp
  have f: "(case spinach_record of JObj r \<Rightarrow> map_of r (u ''image'') = None | _ \<Rightarrow> False)"
    by code_simp
  from override_replaces_record[OF h1 h2 d1 d2] obtain merged where
    m: "fst (load_foods_merged merge_files) = Inr merged"
    "\<forall>k. map_of merged k =
        (case map_of override_corpus k of Some r \<Rightarrow> Some r | None \<Rightarrow> map_of base_corpus k)"
    by blast
  from m(1) v have mv: "merged =
      [(u ''spinach'', spinach_record), (u ''kale'', kale_record), (u ''tea'', tea_record)]"
    by simp
  have "map_of merged (u ''spinach'') = Some spinach_record"
    "map_of merged (u ''kale'') = Some kale_record"
    using m(2) o by simp_all
  moreover have "map fst merged = [u ''spinach'', u ''kale'', u ''tea'']"
    by (simp add: mv)
  ultimately have e: "\<exists>merged. fst (load_foods_merged merge_files) = Inr merged \<and>
      map fst merged = [u ''spinach'', u ''kale'', u ''tea''] \<and>
      map_of merged (u ''spinach'') = Some spinach_record \<and>
      map_of merged (u ''kale'') = Some kale_record"
    using m(1) by (intro exI[of _ merged]) simp
  from d1 d2 e b g f show ?thesis by (intro conjI)
qed








section \<open>Properties of the food command\<close>










end
